theory Spec2Isabelle
  imports Complex_Main "HOL-Library.Sublist" "HOL-Library.AList"
begin

section \<open>Python values and dictionaries\<close>

text \<open>
  The dictionaries of \<^verbatim>\<open>data_manager.py\<close> and \<^verbatim>\<open>app.py\<close> come from JSON files and from
  the widgets of the page, so their values are the JSON scalars: null, a boolean, an
  integer, a float or a string. A float is carried by its exact rational value (every
  finite double is one; NaN and the infinities are not JSON and are left out). Strings are
  byte lists; the case conversion below is the ASCII one.
\<close>

datatype pyval = PNone | PBool bool | PInt int | PFloat rat | PStr string

type_synonym pydict = "string \<rightharpoonup> pyval"

text \<open>\<^verbatim>\<open>d.get(k)\<close> and \<^verbatim>\<open>d.get(k, default)\<close>.\<close>

definition get :: "pydict \<Rightarrow> string \<Rightarrow> pyval" where
  "get d k = (case d k of None \<Rightarrow> PNone | Some v \<Rightarrow> v)"

definition get_or :: "pydict \<Rightarrow> string \<Rightarrow> pyval \<Rightarrow> pyval" where
  "get_or d k dflt = (case d k of None \<Rightarrow> dflt | Some v \<Rightarrow> v)"

text \<open>Truth value of a Python object (\<^verbatim>\<open>if x:\<close>, \<^verbatim>\<open>not x\<close>, \<^verbatim>\<open>x or y\<close>).\<close>

fun truthy :: "pyval \<Rightarrow> bool" where
  "truthy PNone = False"
| "truthy (PBool b) = b"
| "truthy (PInt i) = (i \<noteq> 0)"
| "truthy (PFloat q) = (q \<noteq> 0)"
| "truthy (PStr s) = (s \<noteq> [])"

text \<open>
  Python's \<^verbatim>\<open>==\<close>: booleans, integers and floats compare by numeric value
  (\<^verbatim>\<open>True == 1 == 1.0\<close>), everything else structurally.
\<close>

fun num_of :: "pyval \<Rightarrow> rat option" where
  "num_of (PBool b) = Some (if b then 1 else 0)"
| "num_of (PInt i) = Some (of_int i)"
| "num_of (PFloat q) = Some q"
| "num_of PNone = None"
| "num_of (PStr s) = None"

definition py_eq :: "pyval \<Rightarrow> pyval \<Rightarrow> bool" where
  "py_eq a b =
     (case (num_of a, num_of b) of
        (Some x, Some y) \<Rightarrow> x = y
      | (None, None) \<Rightarrow> a = b
      | _ \<Rightarrow> False)"

text \<open>
  \<^verbatim>\<open>str(x)\<close>, as the f-strings and \<^verbatim>\<open>_match_option\<close> use it. The decimal form of an
  integer is computed; the shortest-round-trip form Python prints for a float is a
  parameter, \<open>float_repr\<close>.
\<close>

definition digit_char :: "nat \<Rightarrow> char" where
  "digit_char d = ''0123456789'' ! d"

fun str_nat :: "nat \<Rightarrow> string" where
  "str_nat n =
     (if n < 10 then [digit_char n]
      else str_nat (n div 10) @ [digit_char (n mod 10)])"

declare str_nat.simps [simp del]

definition str_int :: "int \<Rightarrow> string" where
  "str_int i = (if i < 0 then CHR ''-'' # str_nat (nat (- i)) else str_nat (nat i))"

fun py_str :: "(rat \<Rightarrow> string) \<Rightarrow> pyval \<Rightarrow> string" where
  "py_str fr PNone = ''None''"
| "py_str fr (PBool b) = (if b then ''True'' else ''False'')"
| "py_str fr (PInt i) = str_int i"
| "py_str fr (PFloat q) = fr q"
| "py_str fr (PStr s) = s"

text \<open>\<^verbatim>\<open>s.lower()\<close> on ASCII, and \<^verbatim>\<open>s.replace("_", " ")\<close>.\<close>

definition lower_char :: "char \<Rightarrow> char" where
  "lower_char c =
     (case map_of (zip ''ABCDEFGHIJKLMNOPQRSTUVWXYZ'' ''abcdefghijklmnopqrstuvwxyz'') c of
        Some l \<Rightarrow> l
      | None \<Rightarrow> c)"

definition lower :: "string \<Rightarrow> string" where
  "lower s = map lower_char s"

definition replace_underscore :: "string \<Rightarrow> string" where
  "replace_underscore s = map (\<lambda>c. if c = CHR ''_'' then CHR '' '' else c) s"

section \<open>Constants (\<^verbatim>\<open>constants.py\<close>)\<close>

definition TECHNIQUE_CLASSES :: "(int \<times> string) list" where
  "TECHNIQUE_CLASSES =
     [(0, ''dollyo_chagi''), (1, ''ap_chagi''), (2, ''yeop_chagi''), (3, ''dwit_chagi''),
      (4, ''naeryo_chagi''), (5, ''dwi_huryeo_chagi''), (6, ''momtong_jireugi''),
      (7, ''cut_kick''), (8, ''block_defense''), (9, ''neutral_stance'')]"

text \<open>\<^verbatim>\<open>{v: k for k, v in TECHNIQUE_CLASSES.items()}\<close>\<close>

definition TECHNIQUE_NAMES_REVERSE :: "(string \<times> int) list" where
  "TECHNIQUE_NAMES_REVERSE = map (\<lambda>(k, v). (v, k)) TECHNIQUE_CLASSES"

definition DIM_role :: "string list" where
  "DIM_role = [''Attack'', ''Contre Attack'', ''Defence'']"

definition DIM_scoring_value :: "string list" where
  "DIM_scoring_value =
     [''No score'', ''1'', ''2'', ''3'', ''4'', ''6'', ''-1'', ''-2'', ''-3'', ''-4'', ''-6'']"

definition DIM_penalty :: "string list" where
  "DIM_penalty =
     [''None'',
      ''Fall (-1)'', ''Out (-1)'', ''Avoid (-1)'', ''Grab (-1)'',
      ''After Kalyo (-1)'', ''Hit below waist (-1)'',
      ''Kicking falling opponent (-1)'', ''Misconduct (-1)'',
      ''Fall 10 sec (-2)'', ''Out 10 sec (-2)'', ''Avoid 10 sec (-2)'',
      ''Apal min foug'']"

section \<open>Inference rules of the annotation page (\<^verbatim>\<open>app.py\<close>)\<close>

text \<open>The dictionary \<^verbatim>\<open>_ROLE_MIRROR\<close> and its \<^verbatim>\<open>.get\<close>.\<close>

definition ROLE_MIRROR :: "(string \<times> string) list" where
  "ROLE_MIRROR =
     [(''Attack'', ''Contre Attack''),
      (''Contre Attack'', ''Attack''),
      (''Defence'', ''Attack'')]"

definition role_mirror_get :: "string \<Rightarrow> string option" where
  "role_mirror_get r = map_of ROLE_MIRROR r"

text \<open>
  \<^verbatim>\<open>_penalty_pts\<close>. The argument is what the session state holds for the other fighter's
  penalty widget: a string, or nothing.
\<close>

definition penalty_pts :: "string option \<Rightarrow> int" where
  "penalty_pts penalty_str =
     (case penalty_str of
        None \<Rightarrow> 0
      | Some p \<Rightarrow>
          if p = [] \<or> p = ''None'' then 0
          else if sublist ''(-2)'' p \<or> sublist ''(+2)'' p then 2
          else if sublist ''(-1)'' p \<or> sublist ''(+1)'' p then 1
          else 0)"

text \<open>\<^verbatim>\<open>_match_option\<close>: exact match first, then the first partial match.\<close>

definition match_option :: "(rat \<Rightarrow> string) \<Rightarrow> pyval \<Rightarrow> string list \<Rightarrow> string option" where
  "match_option fr v options =
     (if \<not> truthy v then None
      else
        let value_lower = replace_underscore (lower (py_str fr v)) in
        case find (\<lambda>opt. lower opt = value_lower) options of
          Some opt \<Rightarrow> Some opt
        | None \<Rightarrow>
            find (\<lambda>opt. sublist value_lower (lower opt) \<or> sublist (lower opt) value_lower)
              options)"

text \<open>
  Layer 3 of \<^verbatim>\<open>_render_fighter_layers\<close>: the default of the role widget. \<open>src\<close> is the
  dictionary the defaults are read from, \<open>other_role\<close> what the session state holds for
  the other fighter's role.
\<close>

definition role_default :: "(rat \<Rightarrow> string) \<Rightarrow> pydict \<Rightarrow> bool \<Rightarrow> string option \<Rightarrow> string option" where
  "role_default fr src is_active other_role =
     (let d = match_option fr (get src ''role'') DIM_role in
      if (d = None \<or> d = Some []) \<and> \<not> is_active then
        (case other_role of
           None \<Rightarrow> d
         | Some r \<Rightarrow> if r = [] then d else role_mirror_get r)
      else d)"

text \<open>
  Layer 8: the default of the value widget, from the other fighter's penalty.
\<close>

definition value_default :: "(rat \<Rightarrow> string) \<Rightarrow> pydict \<Rightarrow> string option \<Rightarrow> string option" where
  "value_default fr src other_pen =
     (let d = match_option fr (get src ''scoring_value'') DIM_scoring_value;
          other_pen_pts = penalty_pts other_pen in
      if other_pen_pts > 0 \<and> (d = None \<or> d = Some []) then Some (str_int other_pen_pts)
      else d)"

section \<open>The annotation files (\<^verbatim>\<open>data_manager.py\<close>)\<close>

text \<open>
  A \<^verbatim>\<open>{stem}_annotations.json\<close> file: the list under its \<^verbatim>\<open>"annotations"\<close> key, and its
  other entries (\<^verbatim>\<open>version\<close>, \<^verbatim>\<open>created_at\<close>, \<^verbatim>\<open>num_annotations\<close>). Every function reads
  the list with \<^verbatim>\<open>data.get("annotations", [])\<close>, so a file without the key is the file
  with the empty list.
\<close>

record annotations_data =
  meta :: pydict
  annotations :: "pydict list"

text \<open>
  The directories the module reads and writes, keyed by video stem: \<^verbatim>\<open>ANNOTATIONS_DIR\<close>,
  the \<^verbatim>\<open>.json.bak\<close> copies beside it, and the repository's \<^verbatim>\<open>data/annotations\<close> that
  \<^verbatim>\<open>load_annotations\<close> falls back to. (Where the two directories are one and the same the
  fallback finds nothing the first lookup did not, which is \<open>repo_dir = Map.empty\<close>.)
  \<open>matches_file\<close> is the text of \<^verbatim>\<open>_matches.json\<close>, when the file exists.
\<close>

record video_entry =
  v_video_stem :: string
  v_part :: int

record match_group =
  g_red_name :: string
  g_blue_name :: string
  g_videos :: "video_entry list"

type_synonym matches = "(string \<times> match_group) list"

record store =
  ann_dir :: "string \<rightharpoonup> annotations_data"
  bak_dir :: "string \<rightharpoonup> annotations_data"
  repo_dir :: "string \<rightharpoonup> annotations_data"
  matches_file :: "string option"

text \<open>
  What a call takes from the Python runtime: the two readings of \<^verbatim>\<open>datetime.now().isoformat()\<close>
  (in \<^verbatim>\<open>load_annotations\<close> and in \<^verbatim>\<open>add_annotation\<close>), \<^verbatim>\<open>uuid.uuid4().hex[:8]\<close>, and the
  printed form of floats.
\<close>

record runtime =
  now_load :: string
  now :: string
  uuid_hex8 :: string
  float_repr :: "rat \<Rightarrow> string"

definition load_annotations :: "runtime \<Rightarrow> store \<Rightarrow> string \<Rightarrow> annotations_data" where
  "load_annotations rt s video_stem =
     (case ann_dir s video_stem of
        Some d \<Rightarrow> d
      | None \<Rightarrow>
          (case repo_dir s video_stem of
             Some d \<Rightarrow> d
           | None \<Rightarrow>
               \<lparr>meta = [''version'' \<mapsto> PStr ''1.1'', ''created_at'' \<mapsto> PStr (now_load rt),
                        ''num_annotations'' \<mapsto> PInt 0],
                annotations = []\<rparr>))"

text \<open>
  \<^verbatim>\<open>save_annotations\<close>: copy an existing file to its backup, recompute
  \<^verbatim>\<open>num_annotations\<close>, write. (The temporary file is gone once the call returns.)
\<close>

definition save_annotations :: "store \<Rightarrow> string \<Rightarrow> annotations_data \<Rightarrow> store" where
  "save_annotations s video_stem annotations_data =
     s\<lparr>bak_dir :=
          (case ann_dir s video_stem of
             Some old \<Rightarrow> (bak_dir s)(video_stem \<mapsto> old)
           | None \<Rightarrow> bak_dir s),
       ann_dir :=
          (ann_dir s)(video_stem \<mapsto>
             annotations_data\<lparr>meta :=
               (meta annotations_data)
                 (''num_annotations'' \<mapsto> PInt (int (length (annotations annotations_data))))\<rparr>)\<rparr>"

text \<open>The test on the identity key that the three functions below share.\<close>

definition key_matches :: "pyval \<Rightarrow> pyval \<Rightarrow> pyval \<Rightarrow> pydict \<Rightarrow> bool" where
  "key_matches start_frame end_frame fighter_color ann =
     (py_eq (get ann ''start_frame'') start_frame \<and>
      py_eq (get ann ''end_frame'') end_frame \<and>
      py_eq (get ann ''fighter_color'') fighter_color)"

text \<open>The \<^verbatim>\<open>enumerate\<close> loop with \<^verbatim>\<open>break\<close>: the first index that passes the test.\<close>

fun first_index :: "('a \<Rightarrow> bool) \<Rightarrow> 'a list \<Rightarrow> nat option" where
  "first_index P [] = None"
| "first_index P (x # xs) =
     (if P x then Some 0 else map_option Suc (first_index P xs))"

definition technique_id_of :: "pyval \<Rightarrow> int" where
  "technique_id_of technique =
     (case technique of
        PStr t \<Rightarrow> (case map_of TECHNIQUE_NAMES_REVERSE t of Some i \<Rightarrow> i | None \<Rightarrow> 9)
      | _ \<Rightarrow> 9)"

text \<open>
  The identity key \<^verbatim>\<open>add_annotation\<close> builds from its arguments: the frames of the event
  (0 when absent) and the fighter colour of the corrections, else of the event, else
  \<^verbatim>\<open>"unknown"\<close>.
\<close>

definition key_start_frame :: "pydict \<Rightarrow> pyval" where
  "key_start_frame event = get_or event ''start_frame'' (PInt 0)"

definition key_end_frame :: "pydict \<Rightarrow> pyval" where
  "key_end_frame event = get_or event ''end_frame'' (PInt 0)"

definition key_fighter_color :: "pydict \<Rightarrow> pydict \<Rightarrow> pyval" where
  "key_fighter_color event corrections =
     get_or corrections ''fighter_color'' (get_or event ''fighter_color'' (PStr ''unknown''))"

definition event_key_matches :: "pydict \<Rightarrow> pydict \<Rightarrow> pydict \<Rightarrow> bool" where
  "event_key_matches event corrections =
     key_matches (key_start_frame event) (key_end_frame event)
       (key_fighter_color event corrections)"

text \<open>The dictionary literal of \<^verbatim>\<open>add_annotation\<close>, before \<^verbatim>\<open>annotation_id\<close> is filled in.\<close>

definition build_annotation ::
  "runtime \<Rightarrow> string \<Rightarrow> pydict \<Rightarrow> pydict \<Rightarrow> string \<Rightarrow> bool \<Rightarrow> pydict" where
  "build_annotation rt video_stem event corrections annotated_by existing =
     (let start_frame = key_start_frame event;
          end_frame = key_end_frame event;
          fighter_color = key_fighter_color event corrections;
          technique =
            get_or corrections ''technique'' (get_or event ''technique'' (PStr ''neutral_stance''))
      in map_of
        [(''video_path'', PStr (video_stem @ ''.mp4'')),
         (''start_frame'', start_frame),
         (''end_frame'', end_frame),
         (''fighter_color'', fighter_color),
         (''technique'', technique),
         (''technique_id'', PInt (technique_id_of technique)),
         (''target_zone'',
            get_or corrections ''target_zone'' (get_or event ''target_zone'' (PStr ''trunk''))),
         (''annotator'', PStr (if existing then ''verified'' else ''manual'')),
         (''source'',
            PStr (''confirmed_'' @
              py_str (float_repr rt) (get_or event ''classifier_tier'' (PStr ''rule_based'')))),
         (''confidence'', PFloat 1),
         (''annotated_by'', PStr annotated_by),
         (''notes'', get_or corrections ''notes'' (PStr [])),
         (''created_at'', PStr (now rt)),
         (''annotation_id'', PStr []),
         (''attitude'', get corrections ''attitude''),
         (''guard_stance'', get corrections ''guard_stance''),
         (''role'', get corrections ''role''),
         (''action_type'', get corrections ''action_type''),
         (''leg_used'', get corrections ''leg_used''),
         (''scoring_value'', get corrections ''scoring_value''),
         (''penalty'', get corrections ''penalty''),
         (''scoreboard_red'', get corrections ''scoreboard_red''),
         (''scoreboard_blue'', get corrections ''scoreboard_blue''),
         (''scoreboard_round'', get corrections ''scoreboard_round''),
         (''match_name'', get corrections ''match_name''),
         (''video_part'', get corrections ''video_part'')])"

text \<open>
  \<^verbatim>\<open>add_annotation\<close> returns the new state of the files and the \<^verbatim>\<open>annotation_id\<close>.
\<close>

definition add_annotation ::
  "runtime \<Rightarrow> store \<Rightarrow> string \<Rightarrow> pydict \<Rightarrow> pydict \<Rightarrow> string \<Rightarrow> store \<times> pyval" where
  "add_annotation rt s video_stem event corrections annotated_by =
     (let data = load_annotations rt s video_stem;
          anns = annotations data;
          start_frame = key_start_frame event;
          end_frame = key_end_frame event;
          fighter_color = key_fighter_color event corrections;
          existing_idx = first_index (event_key_matches event corrections) anns;
          annotation =
            build_annotation rt video_stem event corrections annotated_by (existing_idx \<noteq> None)
      in case existing_idx of
           Some i \<Rightarrow>
             let aid = get_or (anns ! i) ''annotation_id'' (PStr []);
                 annotation' = annotation(''annotation_id'' \<mapsto> aid)
             in (save_annotations s video_stem (data\<lparr>annotations := anns[i := annotation']\<rparr>), aid)
         | None \<Rightarrow>
             let aid = PStr (video_stem @ ''_'' @ py_str (float_repr rt) fighter_color @ ''_'' @
                         py_str (float_repr rt) start_frame @ ''_'' @
                         py_str (float_repr rt) end_frame @ ''_'' @ uuid_hex8 rt);
                 annotation' = annotation(''annotation_id'' \<mapsto> aid)
             in (save_annotations s video_stem (data\<lparr>annotations := anns @ [annotation']\<rparr>), aid))"

definition delete_annotation ::
  "runtime \<Rightarrow> store \<Rightarrow> string \<Rightarrow> pyval \<Rightarrow> pyval \<Rightarrow> pyval \<Rightarrow> store \<times> bool" where
  "delete_annotation rt s video_stem start_frame end_frame fighter_color =
     (let data = load_annotations rt s video_stem;
          anns = annotations data;
          original_len = length anns;
          anns' = filter (\<lambda>a. \<not> key_matches start_frame end_frame fighter_color a) anns
      in if length anns' < original_len
         then (save_annotations s video_stem (data\<lparr>annotations := anns'\<rparr>), True)
         else (s, False))"

definition get_annotation_for_event ::
  "runtime \<Rightarrow> store \<Rightarrow> string \<Rightarrow> pyval \<Rightarrow> pyval \<Rightarrow> pyval \<Rightarrow> pydict option" where
  "get_annotation_for_event rt s video_stem start_frame end_frame fighter_color =
     find (key_matches start_frame end_frame fighter_color)
       (annotations (load_annotations rt s video_stem))"

text \<open>The stored annotations of a video that carry the identity key of an event.\<close>

definition stored_for :: "runtime \<Rightarrow> store \<Rightarrow> string \<Rightarrow> pydict \<Rightarrow> pydict \<Rightarrow> pydict list" where
  "stored_for rt s video_stem event corrections =
     filter (event_key_matches event corrections)
       (annotations (load_annotations rt s video_stem))"

text \<open>
  The invariant of the data model: no two stored annotations of a video carry the same
  identity key.
\<close>

definition unique_keys :: "pydict list \<Rightarrow> bool" where
  "unique_keys anns =
     (\<forall>start_frame end_frame fighter_color.
        length (filter (key_matches start_frame end_frame fighter_color) anns) \<le> 1)"

text \<open>Runs of calls of the two functions that change the annotations.\<close>

datatype annotation_call =
  Add runtime string pydict pydict string
| Delete runtime string pyval pyval pyval

fun run_call :: "store \<Rightarrow> annotation_call \<Rightarrow> store" where
  "run_call s (Add rt video_stem event corrections annotated_by) =
     fst (add_annotation rt s video_stem event corrections annotated_by)"
| "run_call s (Delete rt video_stem start_frame end_frame fighter_color) =
     fst (delete_annotation rt s video_stem start_frame end_frame fighter_color)"

definition run_calls :: "store \<Rightarrow> annotation_call list \<Rightarrow> store" where
  "run_calls s calls = foldl run_call s calls"

subsection \<open>Progress statistics\<close>

text \<open>
  \<^verbatim>\<open>round(x, 1)\<close> rounds to the nearest multiple of one tenth, a tie to the even one. The
  quotient is taken over the rationals; Python computes it in double precision.
\<close>

definition round_half_even :: "rat \<Rightarrow> int" where
  "round_half_even x =
     (let f = \<lfloor>x\<rfloor>; d = x - of_int f
      in if d < 1 / 2 then f else if d > 1 / 2 then f + 1 else if even f then f else f + 1)"

definition py_round1 :: "rat \<Rightarrow> rat" where
  "py_round1 x = of_int (round_half_even (x * 10)) / 10"

text \<open>\<^verbatim>\<open>d[k] = d.get(k, 0) + 1\<close> on a dictionary kept in insertion order.\<close>

fun dict_incr :: "(pyval \<times> int) list \<Rightarrow> pyval \<Rightarrow> (pyval \<times> int) list" where
  "dict_incr [] k = [(k, 1)]"
| "dict_incr ((k', n) # d) k =
     (if py_eq k' k then (k', n + 1) # d else (k', n) # dict_incr d k)"

record stats =
  st_total_events :: int
  st_annotated :: int
  st_remaining :: int
  st_progress_pct :: rat
  st_by_annotator :: "(pyval \<times> int) list"
  st_by_technique :: "(pyval \<times> int) list"

definition get_annotation_stats :: "runtime \<Rightarrow> store \<Rightarrow> string \<Rightarrow> int \<Rightarrow> stats" where
  "get_annotation_stats rt s video_stem total_events =
     (let anns = annotations (load_annotations rt s video_stem);
          n = int (length anns)
      in \<lparr>st_total_events = total_events,
          st_annotated = n,
          st_remaining = max 0 (total_events - n),
          st_progress_pct = py_round1 (of_int n / of_int (max 1 total_events) * 100),
          st_by_annotator =
            foldl (\<lambda>d ann.
                     let who = get_or ann ''annotated_by'' (PStr ''Unknown'')
                     in dict_incr d (if truthy who then who else PStr ''Unknown''))
              [] anns,
          st_by_technique =
            foldl (\<lambda>d ann. dict_incr d (get_or ann ''technique'' (PStr ''unknown''))) [] anns\<rparr>)"

subsection \<open>The text of \<^verbatim>\<open>_matches.json\<close>\<close>

text \<open>
  \<^verbatim>\<open>save_matches\<close> writes the collection with
  \<^verbatim>\<open>json.dump(matches, f, indent=2, ensure_ascii=False)\<close> and \<^verbatim>\<open>load_matches\<close> reads it
  with \<^verbatim>\<open>json.load\<close>. Both are modelled on the values that occur in the file: objects,
  arrays, strings, integers, booleans and null. A string is the list of the bytes of its
  UTF-8 form, which \<^verbatim>\<open>ensure_ascii=False\<close> writes through unchanged.
\<close>

datatype json = JNull | JBool bool | JInt int | JStr string | JArr "json list"
  | JObj "(string \<times> json) list"

text \<open>
  The encoder. A string is quoted; the quote, the backslash and the control characters
  are escaped, the latter by their short form or as \<^verbatim>\<open>\u00XX\<close>. With \<^verbatim>\<open>indent=2\<close> every
  element of a non-empty array or object starts on a line of its own, indented by two
  blanks per level; items are separated by \<^verbatim>\<open>,\<close> and a key from its value by \<^verbatim>\<open>: \<close>.
\<close>

definition hex_digit :: "nat \<Rightarrow> char" where
  "hex_digit d = ''0123456789abcdef'' ! d"

definition encode_char :: "char \<Rightarrow> string" where
  "encode_char c =
     (if c = CHR 0x22 then [CHR 0x5C, CHR 0x22]
      else if c = CHR 0x5C then [CHR 0x5C, CHR 0x5C]
      else if c = CHR 0x0A then [CHR 0x5C, CHR ''n'']
      else if c = CHR 0x0D then [CHR 0x5C, CHR ''r'']
      else if c = CHR 0x09 then [CHR 0x5C, CHR ''t'']
      else if c = CHR 0x08 then [CHR 0x5C, CHR ''b'']
      else if c = CHR 0x0C then [CHR 0x5C, CHR ''f'']
      else if (of_char c :: nat) < 32 then
        [CHR 0x5C, CHR ''u'', CHR ''0'', CHR ''0'',
         hex_digit ((of_char c :: nat) div 16), hex_digit ((of_char c :: nat) mod 16)]
      else [c])"

definition encode_string :: "string \<Rightarrow> string" where
  "encode_string s = CHR 0x22 # concat (map encode_char s) @ [CHR 0x22]"

definition newline_indent :: "nat \<Rightarrow> string" where
  "newline_indent level = CHR 0x0A # replicate (2 * level) CHR '' ''"

fun join :: "string \<Rightarrow> string list \<Rightarrow> string" where
  "join sep [] = []"
| "join sep [x] = x"
| "join sep (x # y # ys) = x @ sep @ join sep (y # ys)"

fun dumps :: "nat \<Rightarrow> json \<Rightarrow> string" where
  "dumps level JNull = ''null''"
| "dumps level (JBool b) = (if b then ''true'' else ''false'')"
| "dumps level (JInt i) = str_int i"
| "dumps level (JStr s) = encode_string s"
| "dumps level (JArr xs) =
     (if xs = [] then ''[]''
      else ''['' @ newline_indent (Suc level) @
           join ('','' @ newline_indent (Suc level)) (map (dumps (Suc level)) xs) @
           newline_indent level @ '']'')"
| "dumps level (JObj ms) =
     (if ms = [] then ''{}''
      else ''{'' @ newline_indent (Suc level) @
           join ('','' @ newline_indent (Suc level))
             (map (\<lambda>(k, v). encode_string k @ '': '' @ dumps (Suc level) v) ms) @
           newline_indent level @ ''}'')"

text \<open>
  The decoder. Its recursion is bounded by a counter that each nested call decrements;
  \<open>loads\<close> starts it at the length of the text, which is enough for every text the
  encoder writes (\<open>fuel_le_length\<close> and \<open>loads_dumps\<close> below). \<open>None\<close> is
  \<^verbatim>\<open>JSONDecodeError\<close>. Not modelled, and answered by \<open>None\<close>: numbers with a fraction
  or an exponent, \<^verbatim>\<open>NaN\<close> and \<^verbatim>\<open>Infinity\<close>, and \<^verbatim>\<open>\uXXXX\<close> escapes of code points
  above 127.
\<close>

definition is_ws :: "char \<Rightarrow> bool" where
  "is_ws c = (c = CHR '' '' \<or> c = CHR 0x09 \<or> c = CHR 0x0A \<or> c = CHR 0x0D)"

definition skip_ws :: "string \<Rightarrow> string" where
  "skip_ws t = dropWhile is_ws t"

definition hex_val :: "char \<Rightarrow> nat option" where
  "hex_val c = map_of (zip ''0123456789abcdefABCDEF'' ([0..<16] @ [10..<16])) c"

definition hex4 :: "char \<Rightarrow> char \<Rightarrow> char \<Rightarrow> char \<Rightarrow> nat option" where
  "hex4 a b c d =
     (case (hex_val a, hex_val b, hex_val c, hex_val d) of
        (Some w, Some x, Some y, Some z) \<Rightarrow> Some (((w * 16 + x) * 16 + y) * 16 + z)
      | _ \<Rightarrow> None)"

definition unescape :: "char \<Rightarrow> char option" where
  "unescape e =
     map_of [(CHR 0x22, CHR 0x22), (CHR 0x5C, CHR 0x5C), (CHR ''/'', CHR ''/''),
             (CHR ''b'', CHR 0x08), (CHR ''f'', CHR 0x0C), (CHR ''n'', CHR 0x0A),
             (CHR ''r'', CHR 0x0D), (CHR ''t'', CHR 0x09)] e"

fun scan_string :: "string \<Rightarrow> (string \<times> string) option" where
  "scan_string [] = None"
| "scan_string (c # cs) =
     (if c = CHR 0x22 then Some ([], cs)
      else if c = CHR 0x5C then
        (case cs of
           [] \<Rightarrow> None
         | e # cs' \<Rightarrow>
             if e = CHR ''u'' then
               (case cs' of
                  a # b # c' # d # cs'' \<Rightarrow>
                    (case hex4 a b c' d of
                       Some n \<Rightarrow>
                         if n < 128 then map_option (apfst ((#) (char_of n))) (scan_string cs'')
                         else None
                     | None \<Rightarrow> None)
                | _ \<Rightarrow> None)
             else
               (case unescape e of
                  Some d \<Rightarrow> map_option (apfst ((#) d)) (scan_string cs')
                | None \<Rightarrow> None))
      else if (of_char c :: nat) < 32 then None
      else map_option (apfst ((#) c)) (scan_string cs))"

definition is_digit :: "char \<Rightarrow> bool" where
  "is_digit c = (c \<in> set ''0123456789'')"

definition digit_val :: "char \<Rightarrow> nat" where
  "digit_val c = (case map_of (zip ''0123456789'' [0..<10]) c of Some d \<Rightarrow> d | None \<Rightarrow> 0)"

definition nat_of_digits :: "string \<Rightarrow> nat" where
  "nat_of_digits ds = foldl (\<lambda>a c. 10 * a + digit_val c) 0 ds"

text \<open>The integer part \<^verbatim>\<open>-?(0|[1-9][0-9]*)\<close> of a number.\<close>

definition scan_nat :: "string \<Rightarrow> (nat \<times> string) option" where
  "scan_nat t =
     (case t of
        [] \<Rightarrow> None
      | c # r \<Rightarrow>
          if c = CHR ''0'' then Some (0, r)
          else if is_digit c then
            Some (nat_of_digits (takeWhile is_digit t), dropWhile is_digit t)
          else None)"

definition scan_number :: "string \<Rightarrow> (int \<times> string) option" where
  "scan_number t =
     (case (case t of
              c # r \<Rightarrow> if c = CHR ''-'' then map_option (apfst (\<lambda>n. - int n)) (scan_nat r)
                       else map_option (apfst int) (scan_nat t)
            | [] \<Rightarrow> None) of
        None \<Rightarrow> None
      | Some (i, r) \<Rightarrow>
          (case r of
             c # r' \<Rightarrow> if c = CHR ''.'' \<or> c = CHR ''e'' \<or> c = CHR ''E'' then None else Some (i, r)
           | [] \<Rightarrow> Some (i, r)))"

text \<open>
  \<^verbatim>\<open>dict(pairs)\<close>: a key that occurs again replaces the value and keeps the place of its
  first occurrence.
\<close>

definition py_dict :: "(string \<times> json) list \<Rightarrow> (string \<times> json) list" where
  "py_dict pairs = foldl (\<lambda>d (k, v). AList.update k v d) [] pairs"

text \<open>
  \<open>scan_value\<close> expects the first character of a value; \<open>scan_array\<close> the first
  character of an element, in an array that is not empty; \<open>scan_object\<close> the quote of a
  key, in an object that is not empty.
\<close>

fun scan_value :: "nat \<Rightarrow> string \<Rightarrow> (json \<times> string) option"
  and scan_array :: "nat \<Rightarrow> string \<Rightarrow> (json list \<times> string) option"
  and scan_object :: "nat \<Rightarrow> string \<Rightarrow> ((string \<times> json) list \<times> string) option"
where
  "scan_value 0 t = None"
| "scan_value (Suc f) t =
     (case t of
        [] \<Rightarrow> None
      | c # r \<Rightarrow>
          if c = CHR 0x22 then map_option (apfst JStr) (scan_string r)
          else if c = CHR ''{'' then
            (case skip_ws r of
               [] \<Rightarrow> None
             | d # r' \<Rightarrow> if d = CHR ''}'' then Some (JObj [], r')
                          else map_option (apfst (\<lambda>pairs. JObj (py_dict pairs)))
                                 (scan_object f (d # r')))
          else if c = CHR ''['' then
            (case skip_ws r of
               [] \<Rightarrow> None
             | d # r' \<Rightarrow> if d = CHR '']'' then Some (JArr [], r')
                          else map_option (apfst JArr) (scan_array f (d # r')))
          else if prefix ''null'' t then Some (JNull, drop 4 t)
          else if prefix ''true'' t then Some (JBool True, drop 4 t)
          else if prefix ''false'' t then Some (JBool False, drop 5 t)
          else map_option (apfst JInt) (scan_number t))"
| "scan_array 0 t = None"
| "scan_array (Suc f) t =
     (case scan_value f t of
        None \<Rightarrow> None
      | Some (v, r) \<Rightarrow>
          (case skip_ws r of
             [] \<Rightarrow> None
           | d # r' \<Rightarrow>
               if d = CHR '']'' then Some ([v], r')
               else if d = CHR '','' then
                 map_option (apfst ((#) v)) (scan_array f (skip_ws r'))
               else None))"
| "scan_object 0 t = None"
| "scan_object (Suc f) t =
     (case t of
        [] \<Rightarrow> None
      | q # r \<Rightarrow>
          if q \<noteq> CHR 0x22 then None
          else
            (case scan_string r of
               None \<Rightarrow> None
             | Some (k, r1) \<Rightarrow>
                 (case skip_ws r1 of
                    [] \<Rightarrow> None
                  | c # r2 \<Rightarrow>
                      if c \<noteq> CHR '':'' then None
                      else
                        (case scan_value f (skip_ws r2) of
                           None \<Rightarrow> None
                         | Some (v, r3) \<Rightarrow>
                             (case skip_ws r3 of
                                [] \<Rightarrow> None
                              | d # r4 \<Rightarrow>
                                  if d = CHR ''}'' then Some ([(k, v)], r4)
                                  else if d = CHR '','' then
                                    map_option (apfst ((#) (k, v))) (scan_object f (skip_ws r4))
                                  else None)))))"

definition loads :: "string \<Rightarrow> json option" where
  "loads t =
     (case scan_value (length t) (skip_ws t) of
        None \<Rightarrow> None
      | Some (j, r) \<Rightarrow> if skip_ws r = [] then Some j else None)"

text \<open>
  The values that are Python objects: the keys of every dictionary are distinct.
\<close>

fun proper :: "json \<Rightarrow> bool" where
  "proper (JArr xs) = (\<forall>x \<in> set xs. proper x)"
| "proper (JObj ms) = (distinct (map fst ms) \<and> (\<forall>(k, v) \<in> set ms. proper v))"
| "proper j = True"

text \<open>
  A collection of match groups as the Python object \<^verbatim>\<open>save_match_group\<close> builds, and
  back: a group is read from a dictionary with exactly the keys \<^verbatim>\<open>red_name\<close>,
  \<^verbatim>\<open>blue_name\<close> and \<^verbatim>\<open>videos\<close>, a video from one with exactly \<^verbatim>\<open>video_stem\<close> and
  \<^verbatim>\<open>part\<close>; any other object is outside the model (\<open>None\<close>).
\<close>

definition video_json :: "video_entry \<Rightarrow> json" where
  "video_json v = JObj [(''video_stem'', JStr (v_video_stem v)), (''part'', JInt (v_part v))]"

definition group_json :: "match_group \<Rightarrow> json" where
  "group_json g =
     JObj [(''red_name'', JStr (g_red_name g)), (''blue_name'', JStr (g_blue_name g)),
           (''videos'', JArr (map video_json (g_videos g)))]"

definition matches_json :: "matches \<Rightarrow> json" where
  "matches_json m = JObj (map (\<lambda>(match_name, g). (match_name, group_json g)) m)"

definition json_video :: "json \<Rightarrow> video_entry option" where
  "json_video j =
     (case j of
        JObj d \<Rightarrow>
          (case (map_of d ''video_stem'', map_of d ''part'') of
             (Some (JStr s), Some (JInt p)) \<Rightarrow>
               if length d = 2 then Some \<lparr>v_video_stem = s, v_part = p\<rparr> else None
           | _ \<Rightarrow> None)
      | _ \<Rightarrow> None)"

definition json_group :: "json \<Rightarrow> match_group option" where
  "json_group j =
     (case j of
        JObj d \<Rightarrow>
          (case (map_of d ''red_name'', map_of d ''blue_name'', map_of d ''videos'') of
             (Some (JStr r), Some (JStr b), Some (JArr vs)) \<Rightarrow>
               (case those (map json_video vs) of
                  Some videos \<Rightarrow>
                    if length d = 3
                    then Some \<lparr>g_red_name = r, g_blue_name = b, g_videos = videos\<rparr>
                    else None
                | None \<Rightarrow> None)
           | _ \<Rightarrow> None)
      | _ \<Rightarrow> None)"

definition json_matches :: "json \<Rightarrow> matches option" where
  "json_matches j =
     (case j of
        JObj d \<Rightarrow> those (map (\<lambda>(match_name, g). map_option (Pair match_name) (json_group g)) d)
      | _ \<Rightarrow> None)"

definition write_matches :: "matches \<Rightarrow> string" where
  "write_matches m = dumps 0 (matches_json m)"

definition read_matches :: "string \<Rightarrow> matches option" where
  "read_matches t = (case loads t of None \<Rightarrow> None | Some j \<Rightarrow> json_matches j)"

text \<open>Notions for the proofs about the decoder.\<close>

definition follow_ok :: "string \<Rightarrow> bool" where
  "follow_ok rest =
     (case rest of [] \<Rightarrow> True
      | c # r \<Rightarrow> \<not> is_digit c \<and> c \<noteq> CHR ''.'' \<and> c \<noteq> CHR ''e'' \<and> c \<noteq> CHR ''E'')"

definition value_start :: "char \<Rightarrow> bool" where
  "value_start c = (\<not> is_ws c \<and> c \<noteq> CHR '']'' \<and> c \<noteq> CHR ''}'')"

fun fuel :: "json \<Rightarrow> nat"
  and fuel_list :: "json list \<Rightarrow> nat"
  and fuel_members :: "(string \<times> json) list \<Rightarrow> nat"
where
  "fuel JNull = 1"
| "fuel (JBool b) = 1"
| "fuel (JInt i) = 1"
| "fuel (JStr s) = 1"
| "fuel (JArr xs) = Suc (fuel_list xs)"
| "fuel (JObj ms) = Suc (fuel_members ms)"
| "fuel_list [] = 0"
| "fuel_list (x # xs) = Suc (max (fuel x) (fuel_list xs))"
| "fuel_members [] = 0"
| "fuel_members ((k, v) # ms) = Suc (max (fuel v) (fuel_members ms))"

definition arr_body :: "nat \<Rightarrow> json list \<Rightarrow> string" where
  "arr_body n xs = join ('','' @ newline_indent n) (map (dumps n) xs)"

definition obj_member :: "nat \<Rightarrow> string \<times> json \<Rightarrow> string" where
  "obj_member n = (\<lambda>(k, v). encode_string k @ '': '' @ dumps n v)"

definition obj_body :: "nat \<Rightarrow> (string \<times> json) list \<Rightarrow> string" where
  "obj_body n ms = join ('','' @ newline_indent n) (map (obj_member n) ms)"

subsection \<open>Match groups\<close>

text \<open>
  \<^verbatim>\<open>_matches.json\<close> maps a match name to its group. The dictionary keeps insertion order,
  which \<^verbatim>\<open>get_match_for_video\<close> depends on, so it is an association list; assigning to a
  key replaces the entry in place or appends it (\<open>AList.update\<close>). \<open>None\<close> is an
  exception: the file cannot be read as a collection of match groups.
\<close>

definition load_matches :: "store \<Rightarrow> matches option" where
  "load_matches s = (case matches_file s of None \<Rightarrow> Some [] | Some t \<Rightarrow> read_matches t)"

definition save_matches :: "store \<Rightarrow> matches \<Rightarrow> store" where
  "save_matches s m = s\<lparr>matches_file := Some (write_matches m)\<rparr>"

record match_info =
  mi_match_name :: string
  mi_video_part :: int
  mi_red_name :: string
  mi_blue_name :: string
  mi_videos :: "video_entry list"

fun match_for_video_in :: "matches \<Rightarrow> string \<Rightarrow> match_info option" where
  "match_for_video_in [] video_stem = None"
| "match_for_video_in ((match_name, mdata) # ms) video_stem =
     (case find (\<lambda>vinfo. v_video_stem vinfo = video_stem) (g_videos mdata) of
        Some vinfo \<Rightarrow>
          Some \<lparr>mi_match_name = match_name, mi_video_part = v_part vinfo,
                mi_red_name = g_red_name mdata, mi_blue_name = g_blue_name mdata,
                mi_videos = g_videos mdata\<rparr>
      | None \<Rightarrow> match_for_video_in ms video_stem)"

definition get_match_for_video :: "store \<Rightarrow> string \<Rightarrow> match_info option option" where
  "get_match_for_video s video_stem =
     (case load_matches s of
        None \<Rightarrow> None
      | Some matches \<Rightarrow> Some (match_for_video_in matches video_stem))"

text \<open>
  The loop of \<^verbatim>\<open>save_match_group\<close> over the group's videos: the first entry with the stem
  gets the new part; \<open>None\<close> is \<^verbatim>\<open>found == False\<close>.
\<close>

fun set_part :: "video_entry list \<Rightarrow> string \<Rightarrow> int \<Rightarrow> video_entry list option" where
  "set_part [] video_stem part = None"
| "set_part (v # vs) video_stem part =
     (if v_video_stem v = video_stem then Some (v\<lparr>v_part := part\<rparr> # vs)
      else map_option ((#) v) (set_part vs video_stem part))"

text \<open>
  The two last steps of \<^verbatim>\<open>save_match_group\<close>: the entry of the video updated or
  appended, then the list sorted by part (\<^verbatim>\<open>list.sort\<close> is stable, as \<open>sort_key\<close> is).
\<close>

definition updated_videos :: "video_entry list \<Rightarrow> string \<Rightarrow> int \<Rightarrow> video_entry list" where
  "updated_videos videos video_stem part =
     sort_key v_part
       (case set_part videos video_stem part of
          Some vs \<Rightarrow> vs
        | None \<Rightarrow> videos @ [\<lparr>v_video_stem = video_stem, v_part = part\<rparr>])"

text \<open>
  The group \<^verbatim>\<open>save_match_group\<close> leaves under \<^verbatim>\<open>match_name\<close>: created when absent, the
  names replaced when given, the video list updated.
\<close>

definition updated_group ::
  "matches \<Rightarrow> string \<Rightarrow> string \<Rightarrow> int \<Rightarrow> string \<Rightarrow> string \<Rightarrow> match_group" where
  "updated_group matches match_name video_stem part red_name blue_name =
     (let g0 = (case map_of matches match_name of
                  None \<Rightarrow> \<lparr>g_red_name = red_name, g_blue_name = blue_name, g_videos = []\<rparr>
                | Some g \<Rightarrow> g);
          g1 = (if red_name \<noteq> [] then g0\<lparr>g_red_name := red_name\<rparr> else g0);
          g2 = (if blue_name \<noteq> [] then g1\<lparr>g_blue_name := blue_name\<rparr> else g1)
      in g2\<lparr>g_videos := updated_videos (g_videos g2) video_stem part\<rparr>)"

definition save_match_group ::
  "store \<Rightarrow> string \<Rightarrow> string \<Rightarrow> int \<Rightarrow> string \<Rightarrow> string \<Rightarrow> store option" where
  "save_match_group s match_name video_stem part red_name blue_name =
     (case load_matches s of
        None \<Rightarrow> None
      | Some matches \<Rightarrow>
          Some (save_matches s
            (AList.update match_name
               (updated_group matches match_name video_stem part red_name blue_name) matches)))"

text \<open>
  A run of \<^verbatim>\<open>save_match_group\<close> calls, each given by its five arguments, from a state of
  the files, and the collection \<^verbatim>\<open>load_matches\<close> returns after it.
\<close>

type_synonym group_call = "string \<times> string \<times> int \<times> string \<times> string"

fun save_match_groups :: "store \<Rightarrow> group_call list \<Rightarrow> store option" where
  "save_match_groups s [] = Some s"
| "save_match_groups s ((match_name, video_stem, part, red_name, blue_name) # calls) =
     (case save_match_group s match_name video_stem part red_name blue_name of
        None \<Rightarrow> None
      | Some s' \<Rightarrow> save_match_groups s' calls)"

definition loaded_after :: "store \<Rightarrow> group_call list \<Rightarrow> matches option" where
  "loaded_after s calls =
     (case save_match_groups s calls of None \<Rightarrow> None | Some s' \<Rightarrow> load_matches s')"

text \<open>What \<^verbatim>\<open>get_match_for_video\<close> answers after a run of calls.\<close>

definition lookup_after ::
  "store \<Rightarrow> group_call list \<Rightarrow> string \<Rightarrow> match_info option option" where
  "lookup_after s calls video_stem =
     (case save_match_groups s calls of
        None \<Rightarrow> None
      | Some s' \<Rightarrow> get_match_for_video s' video_stem)"

definition no_matches :: "store \<Rightarrow> bool" where
  "no_matches s = (load_matches s = Some [])"

text \<open>The invariant of a group: parts ascending, no video stem twice.\<close>

definition group_ok :: "match_group \<Rightarrow> bool" where
  "group_ok g =
     (sorted (map v_part (g_videos g)) \<and> distinct (map v_video_stem (g_videos g)))"

text \<open>The groups of a collection that list a video.\<close>

definition groups_listing :: "matches \<Rightarrow> string \<Rightarrow> string list" where
  "groups_listing m video_stem =
     map fst (filter (\<lambda>(match_name, mdata). video_stem \<in> v_video_stem ` set (g_videos mdata)) m)"

section \<open>Example data\<close>

text \<open>
  One event of video \<^verbatim>\<open>match01\<close>, the corrections the page sends for the red and for the
  blue fighter of that event (\<^verbatim>\<open>CONFIRM BOTH\<close> saves one annotation per fighter), and the
  states of the files after saving them.
\<close>

definition ex_rt :: runtime where
  "ex_rt = \<lparr>now_load = ''2026-01-01T10:00:00'', now = ''2026-01-01T10:00:01'',
            uuid_hex8 = ''0a1b2c3d'', float_repr = (\<lambda>q. ''0.0'')\<rparr>"

definition ex_rt2 :: runtime where
  "ex_rt2 = \<lparr>now_load = ''2026-01-01T10:05:00'', now = ''2026-01-01T10:05:01'',
             uuid_hex8 = ''99887766'', float_repr = (\<lambda>q. ''0.0'')\<rparr>"

definition empty_store :: store where
  "empty_store =
     \<lparr>ann_dir = Map.empty, bak_dir = Map.empty, repo_dir = Map.empty, matches_file = None\<rparr>"

definition ex_event :: pydict where
  "ex_event = [''start_frame'' \<mapsto> PInt 120, ''end_frame'' \<mapsto> PInt 150,
               ''fighter_color'' \<mapsto> PStr ''red'', ''technique'' \<mapsto> PStr ''ap_chagi'']"

definition ex_red :: pydict where
  "ex_red = [''fighter_color'' \<mapsto> PStr ''red'', ''technique'' \<mapsto> PStr ''ap_chagi'',
             ''role'' \<mapsto> PStr ''Attack'']"

definition ex_blue :: pydict where
  "ex_blue = [''fighter_color'' \<mapsto> PStr ''blue'', ''role'' \<mapsto> PStr ''Contre Attack'']"

definition ex_store_red :: store where
  "ex_store_red = fst (add_annotation ex_rt empty_store ''match01'' ex_event ex_red ''Coach'')"

definition ex_store_both :: store where
  "ex_store_both =
     fst (add_annotation ex_rt2 ex_store_red ''match01'' ex_event ex_blue ''Coach'')"

text \<open>
  Calls of \<^verbatim>\<open>save_match_group\<close>: a video saved under one match name and then under
  another (what \<^verbatim>\<open>Save match details\<close> does after the name was edited), and two parts
  saved into one match, the second without names.
\<close>

definition ex_calls_move :: "group_call list" where
  "ex_calls_move =
     [(''Semi Final'', ''match01'', 1, ''Dunya'', ''Opponent''),
      (''Final'', ''match01'', 1, ''Dunya'', ''Opponent'')]"

definition ex_calls_parts :: "group_call list" where
  "ex_calls_parts =
     [(''Final'', ''match02'', 2, ''Dunya'', ''Opponent''),
      (''Final'', ''match01'', 1, [], [])]"

text \<open>The collections these two runs leave in the file.\<close>

definition ex_two_groups :: matches where
  "ex_two_groups =
     [(''Semi Final'', \<lparr>g_red_name = ''Dunya'', g_blue_name = ''Opponent'',
         g_videos = [\<lparr>v_video_stem = ''match01'', v_part = 1\<rparr>]\<rparr>),
      (''Final'', \<lparr>g_red_name = ''Dunya'', g_blue_name = ''Opponent'',
         g_videos = [\<lparr>v_video_stem = ''match01'', v_part = 1\<rparr>]\<rparr>)]"

definition ex_final_parts :: matches where
  "ex_final_parts =
     [(''Final'', \<lparr>g_red_name = ''Dunya'', g_blue_name = ''Opponent'',
         g_videos = [\<lparr>v_video_stem = ''match01'', v_part = 1\<rparr>,
                     \<lparr>v_video_stem = ''match02'', v_part = 2\<rparr>]\<rparr>)]"

section \<open>The inference rules\<close>

lemma role_mirror_get_cases:
  "role_mirror_get r =
     (if r = ''Attack'' then Some ''Contre Attack''
      else if r = ''Contre Attack'' then Some ''Attack''
      else if r = ''Defence'' then Some ''Attack''
      else None)"
  by (simp add: role_mirror_get_def ROLE_MIRROR_def)

lemma match_option_falsy: "\<not> truthy v \<Longrightarrow> match_option fr v options = None"
  by (simp add: match_option_def)

lemma no_marker_in_None:
  "\<not> sublist ''(-2)'' ''None''" "\<not> sublist ''(+2)'' ''None''"
  "\<not> sublist ''(-1)'' ''None''" "\<not> sublist ''(+1)'' ''None''"
  by (simp_all add: sublist_Cons_right)

lemma penalty_pts_range: "penalty_pts pen = 0 \<or> penalty_pts pen = 1 \<or> penalty_pts pen = 2"
  by (simp add: penalty_pts_def split: option.splits)

lemma str_int_1_2: "str_int 1 = ''1''" "str_int 2 = ''2''"
  by (simp_all add: str_int_def str_nat.simps digit_char_def)

text \<open>
  C5. The role mirror sends Attack to Contre Attack, Contre Attack to Attack and Defence to
  Attack; any other input has no entry, and no input is sent to Defence. The default of the
  role widget follows the table row by row: for a reactive fighter (\<open>is_active = False\<close>)
  without a stored role it is, for every role \<open>r\<close> of the other fighter, the table's entry
  for \<open>r\<close> (Contre Attack for Attack, Attack for Contre Attack, Attack for Defence, nothing
  otherwise, never Defence); it is nothing when the other fighter has no role or when the
  fighter is the active one. A stored role that matches an option is the default whatever
  the other fighter's role.
\<close>

theorem role_mirror_exact:
  "role_mirror_get ''Attack'' = Some ''Contre Attack'' \<and>
   role_mirror_get ''Contre Attack'' = Some ''Attack'' \<and>
   role_mirror_get ''Defence'' = Some ''Attack'' \<and>
   (r \<notin> {''Attack'', ''Contre Attack'', ''Defence''} \<longrightarrow> role_mirror_get r = None) \<and>
   role_mirror_get r \<noteq> Some ''Defence'' \<and>
   (\<not> truthy (get src ''role'') \<longrightarrow>
      role_default fr src False (Some ''Attack'') = Some ''Contre Attack'' \<and>
      role_default fr src False (Some ''Attack'') \<noteq> Some ''Defence'' \<and>
      role_default fr src False (Some ''Contre Attack'') = Some ''Attack'' \<and>
      role_default fr src False (Some ''Defence'') = Some ''Attack'' \<and>
      (r \<notin> {''Attack'', ''Contre Attack'', ''Defence''} \<longrightarrow>
         role_default fr src False (Some r) = None) \<and>
      role_default fr src False (Some r) = role_mirror_get r \<and>
      role_default fr src False (Some r) \<noteq> Some ''Defence'' \<and>
      role_default fr src False None = None \<and>
      role_default fr src True other = None) \<and>
   (\<forall>x. match_option fr (get src ''role'') DIM_role = Some x \<and> x \<noteq> [] \<longrightarrow>
      role_default fr src is_active other = Some x)"
proof -
  have empty: "role_mirror_get [] = None"
    by (simp add: role_mirror_get_cases)
  have reactive: "role_default fr src False (Some r') = role_mirror_get r'"
    if "\<not> truthy (get src ''role'')" for r'
    using that empty by (simp add: role_default_def match_option_falsy)
  have none: "role_default fr src False None = None" "role_default fr src True other = None"
    if "\<not> truthy (get src ''role'')"
    using that by (simp_all add: role_default_def match_option_falsy)
  have stored: "role_default fr src is_active other = Some x"
    if "match_option fr (get src ''role'') DIM_role = Some x" "x \<noteq> []" for x
    using that by (simp add: role_default_def)
  show ?thesis
    using reactive none stored by (simp add: role_mirror_get_cases)
qed

theorem role_mirror_exact_witness:
  "''Forward'' \<notin> {''Attack'', ''Contre Attack'', ''Defence''} \<and>
   \<not> truthy (get Map.empty ''role'') \<and>
   role_mirror_get ''Forward'' = None \<and>
   role_default (\<lambda>q. []) Map.empty False (Some ''Attack'') = Some ''Contre Attack'' \<and>
   role_default (\<lambda>q. []) Map.empty False (Some ''Contre Attack'') = Some ''Attack'' \<and>
   role_default (\<lambda>q. []) Map.empty False (Some ''Defence'') = Some ''Attack'' \<and>
   role_default (\<lambda>q. []) Map.empty False (Some ''Forward'') = None \<and>
   role_default (\<lambda>q. []) Map.empty True (Some ''Attack'') = None \<and>
   match_option (\<lambda>q. []) (get [''role'' \<mapsto> PStr ''defence''] ''role'') DIM_role = Some ''Defence'' \<and>
   role_default (\<lambda>q. []) [''role'' \<mapsto> PStr ''defence''] False (Some ''Attack'') = Some ''Defence''"
proof -
  have m: "match_option (\<lambda>q. []) (get [''role'' \<mapsto> PStr ''defence''] ''role'') DIM_role =
      Some ''Defence''"
    by (simp add: get_def match_option_def DIM_role_def lower_def lower_char_def
        replace_underscore_def)
  from role_mirror_exact [of "''Forward''" Map.empty "\<lambda>q. []" "Some ''Attack''" True]
    role_mirror_exact [of "''Forward''" "[''role'' \<mapsto> PStr ''defence'']" "\<lambda>q. []"
      "Some ''Attack''" False] m
  show ?thesis
    by (simp add: get_def)
qed

text \<open>
  C6. \<^verbatim>\<open>_penalty_pts\<close> is 2 on a string containing \<^verbatim>\<open>(-2)\<close> or \<^verbatim>\<open>(+2)\<close>, otherwise 1 on one
  containing \<^verbatim>\<open>(-1)\<close> or \<^verbatim>\<open>(+1)\<close>, otherwise 0; it is 0 on \<^verbatim>\<open>"None"\<close> and on an absent
  value. Without a stored scoring value, the default of the value widget is determined by
  \<^verbatim>\<open>_penalty_pts\<close> of the other fighter's penalty, for every penalty: the string \<^verbatim>\<open>"2"\<close>
  when it is 2 (so for \<^verbatim>\<open>"Fall 10 sec (-2)"\<close>), \<^verbatim>\<open>"1"\<close> when it is 1, and nothing when it
  is 0 (so for \<^verbatim>\<open>"None"\<close> and for an absent penalty). A stored scoring value that matches
  an option is the default whatever the penalty.
\<close>

theorem penalty_pts_markers:
  "penalty_pts None = 0 \<and>
   penalty_pts (Some ''None'') = 0 \<and>
   penalty_pts (Some p) =
     (if sublist ''(-2)'' p \<or> sublist ''(+2)'' p then 2
      else if sublist ''(-1)'' p \<or> sublist ''(+1)'' p then 1
      else 0) \<and>
   penalty_pts (Some ''Fall 10 sec (-2)'') = 2 \<and>
   (\<not> truthy (get src ''scoring_value'') \<longrightarrow>
      value_default fr src (Some ''Fall 10 sec (-2)'') = Some ''2'' \<and>
      value_default fr src pen =
        (if penalty_pts pen = 2 then Some ''2''
         else if penalty_pts pen = 1 then Some ''1''
         else None) \<and>
      value_default fr src (Some ''None'') = None \<and>
      value_default fr src None = None) \<and>
   (\<forall>x. match_option fr (get src ''scoring_value'') DIM_scoring_value = Some x \<and> x \<noteq> [] \<longrightarrow>
      value_default fr src pen = Some x)"
proof -
  have fall: "penalty_pts (Some ''Fall 10 sec (-2)'') = 2"
    by (simp add: penalty_pts_def sublist_Cons_right)
  have general: "penalty_pts (Some p) =
     (if sublist ''(-2)'' p \<or> sublist ''(+2)'' p then 2
      else if sublist ''(-1)'' p \<or> sublist ''(+1)'' p then 1
      else 0)"
    by (auto simp: penalty_pts_def no_marker_in_None)
  have dflt: "value_default fr src pen' =
        (if penalty_pts pen' = 2 then Some ''2''
         else if penalty_pts pen' = 1 then Some ''1''
         else None)"
    if "\<not> truthy (get src ''scoring_value'')" for pen'
    using that penalty_pts_range [of pen']
    by (auto simp: value_default_def match_option_falsy str_int_1_2)
  have stored: "value_default fr src pen = Some x"
    if "match_option fr (get src ''scoring_value'') DIM_scoring_value = Some x" "x \<noteq> []" for x
    using that by (simp add: value_default_def)
  have zero: "penalty_pts None = 0" "penalty_pts (Some ''None'') = 0"
    by (simp_all add: penalty_pts_def)
  show ?thesis
    using fall general dflt stored zero by simp
qed

theorem penalty_pts_markers_witness:
  "\<not> truthy (get Map.empty ''scoring_value'') \<and>
   penalty_pts (Some ''Out (-1)'') = 1 \<and>
   value_default (\<lambda>q. []) Map.empty (Some ''Fall 10 sec (-2)'') = Some ''2'' \<and>
   value_default (\<lambda>q. []) Map.empty (Some ''Out (-1)'') = Some ''1'' \<and>
   value_default (\<lambda>q. []) Map.empty (Some ''None'') = None \<and>
   value_default (\<lambda>q. []) Map.empty None = None \<and>
   match_option (\<lambda>q. []) (get [''scoring_value'' \<mapsto> PStr ''3''] ''scoring_value'')
     DIM_scoring_value = Some ''3'' \<and>
   value_default (\<lambda>q. []) [''scoring_value'' \<mapsto> PStr ''3''] (Some ''Fall 10 sec (-2)'') =
     Some ''3''"
proof -
  have m: "match_option (\<lambda>q. []) (get [''scoring_value'' \<mapsto> PStr ''3''] ''scoring_value'')
     DIM_scoring_value = Some ''3''"
    by (simp add: get_def match_option_def DIM_scoring_value_def lower_def lower_char_def
        replace_underscore_def)
  have one: "penalty_pts (Some ''Out (-1)'') = 1"
    by (simp add: penalty_pts_def sublist_Cons_right)
  from penalty_pts_markers [of "''Out (-1)''" Map.empty "\<lambda>q. []" "Some ''Out (-1)''"]
    penalty_pts_markers [of "''Out (-1)''" "[''scoring_value'' \<mapsto> PStr ''3'']" "\<lambda>q. []"
      "Some ''Fall 10 sec (-2)''"] m one
  show ?thesis
    by (simp add: get_def)
qed

section \<open>The annotation repository\<close>

subsection \<open>Equality of values, first index\<close>

lemma py_eq_refl: "py_eq a a"
  by (cases a) (simp_all add: py_eq_def)

lemma py_eq_sym: "py_eq a b \<Longrightarrow> py_eq b a"
  by (cases a; cases b) (auto simp: py_eq_def split: if_splits)

lemma py_eq_trans: "py_eq a b \<Longrightarrow> py_eq b c \<Longrightarrow> py_eq a c"
  by (cases a; cases b; cases c) (auto simp: py_eq_def split: if_splits)

lemma first_index_None: "first_index P xs = None \<longleftrightarrow> (\<forall>x\<in>set xs. \<not> P x)"
  by (induction xs) auto

lemma first_index_Some:
  "first_index P xs = Some i \<Longrightarrow> i < length xs \<and> P (xs ! i) \<and> (\<forall>j<i. \<not> P (xs ! j))"
proof (induction xs arbitrary: i)
  case Nil
  then show ?case by simp
next
  case (Cons x xs)
  show ?case
  proof (cases "P x")
    case True
    with Cons.prems show ?thesis by simp
  next
    case False
    with Cons.prems obtain k where k: "first_index P xs = Some k" "i = Suc k"
      by auto
    from Cons.IH [OF k(1)] False k(2) show ?thesis
      by (auto simp: less_Suc_eq_0_disj)
  qed
qed

lemma find_first_index:
  "find P xs = (case first_index P xs of None \<Rightarrow> None | Some i \<Rightarrow> Some (xs ! i))"
  by (induction xs) (auto split: option.splits)

lemma first_index_update:
  "first_index P xs = Some i \<Longrightarrow> P a \<Longrightarrow> first_index P (xs[i := a]) = Some i"
proof (induction xs arbitrary: i)
  case Nil
  then show ?case by simp
next
  case (Cons x xs)
  then show ?case
    by (cases "P x") (auto split: nat.splits)
qed

lemma first_index_append:
  "first_index P xs = None \<Longrightarrow> P a \<Longrightarrow> first_index P (xs @ [a]) = Some (length xs)"
  by (induction xs) (auto split: if_splits)

lemma filter_update_same:
  "i < length xs \<Longrightarrow> P (xs ! i) \<Longrightarrow> P a \<Longrightarrow>
   length (filter P (xs[i := a])) = length (filter P xs)"
proof (induction xs arbitrary: i)
  case Nil
  then show ?case by simp
next
  case (Cons x xs)
  then show ?case by (cases i) auto
qed

subsection \<open>What \<^verbatim>\<open>add_annotation\<close> writes\<close>

lemma annotations_load_save [simp]:
  "annotations (load_annotations rt (save_annotations s v d) v) = annotations d"
  by (simp add: load_annotations_def save_annotations_def)

lemma get_build_annotation:
  "get ((build_annotation rt v e c who ex)(''annotation_id'' \<mapsto> aid)) ''start_frame'' = key_start_frame e"
  "get ((build_annotation rt v e c who ex)(''annotation_id'' \<mapsto> aid)) ''end_frame'' = key_end_frame e"
  "get ((build_annotation rt v e c who ex)(''annotation_id'' \<mapsto> aid)) ''fighter_color'' = key_fighter_color e c"
  "get ((build_annotation rt v e c who ex)(''annotation_id'' \<mapsto> aid)) ''annotator'' = PStr (if ex then ''verified'' else ''manual'')"
  "get ((build_annotation rt v e c who ex)(''annotation_id'' \<mapsto> aid)) ''created_at'' = PStr (now rt)"
  "get ((build_annotation rt v e c who ex)(''annotation_id'' \<mapsto> aid)) ''annotation_id'' = aid"
  "get_or ((build_annotation rt v e c who ex)(''annotation_id'' \<mapsto> aid)) ''annotation_id'' dflt = aid"
  by (simp_all add: build_annotation_def get_def get_or_def Let_def)

lemma new_annotation_matches:
  "event_key_matches e c ((build_annotation rt v e c who ex)(''annotation_id'' \<mapsto> aid))"
  by (simp add: event_key_matches_def key_matches_def get_build_annotation py_eq_refl)

lemma add_annotation_existing:
  assumes "first_index (event_key_matches e c) (annotations (load_annotations rt s v)) = Some i"
  shows "add_annotation rt s v e c who =
     (save_annotations s v
        ((load_annotations rt s v)
           \<lparr>annotations := (annotations (load_annotations rt s v))
              [i := (build_annotation rt v e c who True)
                 (''annotation_id'' \<mapsto>
                    get_or (annotations (load_annotations rt s v) ! i) ''annotation_id'' (PStr []))]\<rparr>),
      get_or (annotations (load_annotations rt s v) ! i) ''annotation_id'' (PStr []))"
  using assms by (simp add: add_annotation_def Let_def)

lemma add_annotation_new:
  assumes "first_index (event_key_matches e c) (annotations (load_annotations rt s v)) = None"
  shows "add_annotation rt s v e c who =
     (save_annotations s v
        ((load_annotations rt s v)
           \<lparr>annotations := annotations (load_annotations rt s v) @
              [(build_annotation rt v e c who False)
                 (''annotation_id'' \<mapsto>
                    PStr (v @ ''_'' @ py_str (float_repr rt) (key_fighter_color e c) @ ''_'' @
                         py_str (float_repr rt) (key_start_frame e) @ ''_'' @
                         py_str (float_repr rt) (key_end_frame e) @ ''_'' @ uuid_hex8 rt))]\<rparr>),
      PStr (v @ ''_'' @ py_str (float_repr rt) (key_fighter_color e c) @ ''_'' @
                         py_str (float_repr rt) (key_start_frame e) @ ''_'' @
                         py_str (float_repr rt) (key_end_frame e) @ ''_'' @ uuid_hex8 rt))"
  using assms by (simp add: add_annotation_def Let_def)

text \<open>
  After a call the first record with the key is the one just written and carries the
  returned identifier; the number of records with the key is what it was, or one where
  there was none.
\<close>

lemma add_annotation_effect:
  fixes rt' :: runtime
  assumes "add_annotation rt s v e c who = (s', aid)"
  defines "anns \<equiv> annotations (load_annotations rt s v)"
  defines "anns' \<equiv> annotations (load_annotations rt' s' v)"
  shows "\<exists>i. first_index (event_key_matches e c) anns' = Some i \<and>
             get_or (anns' ! i) ''annotation_id'' (PStr []) = aid \<and>
             get (anns' ! i) ''annotation_id'' = aid \<and>
             get (anns' ! i) ''annotator'' =
               PStr (if first_index (event_key_matches e c) anns = None then ''manual'' else ''verified'') \<and>
             get (anns' ! i) ''created_at'' = PStr (now rt)"
    and "length (filter (event_key_matches e c) anns') =
           (if first_index (event_key_matches e c) anns = None then 1
            else length (filter (event_key_matches e c) anns))"
proof -
  let ?K = "event_key_matches e c"
  show "\<exists>i. first_index ?K anns' = Some i \<and>
             get_or (anns' ! i) ''annotation_id'' (PStr []) = aid \<and>
             get (anns' ! i) ''annotation_id'' = aid \<and>
             get (anns' ! i) ''annotator'' =
               PStr (if first_index ?K anns = None then ''manual'' else ''verified'') \<and>
             get (anns' ! i) ''created_at'' = PStr (now rt)"
  proof (cases "first_index ?K anns")
    case None
    from add_annotation_new [OF None [unfolded anns_def], of who] assms(1)
    have "anns' = anns @ [(build_annotation rt v e c who False)(''annotation_id'' \<mapsto> aid)]"
      by (auto simp: anns'_def anns_def)
    with None show ?thesis
      by (simp add: first_index_append new_annotation_matches get_build_annotation)
  next
    case (Some i)
    from add_annotation_existing [OF Some [unfolded anns_def], of who] assms(1)
    have "anns' = anns[i := (build_annotation rt v e c who True)(''annotation_id'' \<mapsto> aid)]"
      by (auto simp: anns'_def anns_def)
    moreover from first_index_Some [OF Some] have "i < length anns" by simp
    ultimately show ?thesis using Some
      by (simp add: first_index_update new_annotation_matches get_build_annotation)
  qed
  show "length (filter ?K anns') =
           (if first_index ?K anns = None then 1 else length (filter ?K anns))"
  proof (cases "first_index ?K anns")
    case None
    from add_annotation_new [OF None [unfolded anns_def], of who] assms(1)
    have "anns' = anns @ [(build_annotation rt v e c who False)(''annotation_id'' \<mapsto> aid)]"
      by (auto simp: anns'_def anns_def)
    moreover from None have "filter ?K anns = []"
      by (simp add: first_index_None filter_empty_conv)
    ultimately show ?thesis using None
      by (simp add: new_annotation_matches)
  next
    case (Some i)
    from add_annotation_existing [OF Some [unfolded anns_def], of who] assms(1)
    have "anns' = anns[i := (build_annotation rt v e c who True)(''annotation_id'' \<mapsto> aid)]"
      by (auto simp: anns'_def anns_def)
    with first_index_Some [OF Some] Some show ?thesis
      by (simp add: filter_update_same new_annotation_matches)
  qed
qed

subsection \<open>The example states\<close>

lemma str120: "str_int 120 = ''120''" "str_int 150 = ''150''"
  by (simp_all add: str_int_def str_nat.simps digit_char_def)

lemma ex_keys:
  "key_start_frame ex_event = PInt 120" "key_end_frame ex_event = PInt 150"
  "key_fighter_color ex_event ex_red = PStr ''red''"
  "key_fighter_color ex_event ex_blue = PStr ''blue''"
  by (simp_all add: key_start_frame_def key_end_frame_def key_fighter_color_def get_or_def
      ex_event_def ex_red_def ex_blue_def)

lemma ex_empty_annotations: "annotations (load_annotations rt empty_store v) = []"
  by (simp add: load_annotations_def empty_store_def)

lemma ex_red_annotations:
  "annotations (load_annotations rt ex_store_red ''match01'') =
     [(build_annotation ex_rt ''match01'' ex_event ex_red ''Coach'' False)
        (''annotation_id'' \<mapsto> PStr ''match01_red_120_150_0a1b2c3d'')]"
  unfolding ex_store_red_def
  by (subst add_annotation_new)
     (simp_all add: ex_empty_annotations ex_keys str120 ex_rt_def)

lemma ex_red_not_blue:
  "\<not> event_key_matches ex_event ex_blue
       ((build_annotation ex_rt ''match01'' ex_event ex_red ''Coach'' False)
          (''annotation_id'' \<mapsto> aid))"
  by (simp add: event_key_matches_def key_matches_def get_build_annotation ex_keys py_eq_def)

lemma ex_both_annotations:
  "annotations (load_annotations rt ex_store_both ''match01'') =
     [(build_annotation ex_rt ''match01'' ex_event ex_red ''Coach'' False)
        (''annotation_id'' \<mapsto> PStr ''match01_red_120_150_0a1b2c3d''),
      (build_annotation ex_rt2 ''match01'' ex_event ex_blue ''Coach'' False)
        (''annotation_id'' \<mapsto> PStr ''match01_blue_120_150_99887766'')]"
  unfolding ex_store_both_def
  by (subst add_annotation_new)
     (simp_all add: ex_red_annotations ex_red_not_blue ex_keys str120 ex_rt2_def)

lemma ex_red_matches:
  "key_matches (PInt 120) (PInt 150) (PStr ''red'')
       ((build_annotation ex_rt ''match01'' ex_event ex_red ''Coach'' False)
          (''annotation_id'' \<mapsto> aid))"
  "\<not> key_matches (PInt 120) (PInt 150) (PStr ''blue'')
       ((build_annotation ex_rt ''match01'' ex_event ex_red ''Coach'' False)
          (''annotation_id'' \<mapsto> aid))"
  by (simp_all add: key_matches_def get_build_annotation ex_keys py_eq_def)

subsection \<open>At most one annotation per key\<close>

text \<open>
  The invariant holds of a video without annotations and is kept by \<^verbatim>\<open>add_annotation\<close>
  and by \<^verbatim>\<open>delete_annotation\<close>.
\<close>

lemma py_eq_same_target:
  assumes "py_eq x a" and "py_eq x b"
  shows "py_eq y a = py_eq y b"
proof
  from assms have ab: "py_eq a b" using py_eq_sym py_eq_trans by blast
  show "py_eq y b" if "py_eq y a" using that ab py_eq_trans by blast
  from ab have "py_eq b a" by (rule py_eq_sym)
  then show "py_eq y a" if "py_eq y b" using that py_eq_trans by blast
qed

lemma key_matches_same_key:
  assumes "key_matches sf ef fc a" and "key_matches sf' ef' fc' a"
  shows "key_matches sf ef fc b = key_matches sf' ef' fc' b"
proof -
  from assms have "py_eq (get b ''start_frame'') sf = py_eq (get b ''start_frame'') sf'"
    by (simp add: key_matches_def py_eq_same_target [of "get a ''start_frame''"])
  moreover
  from assms have "py_eq (get b ''end_frame'') ef = py_eq (get b ''end_frame'') ef'"
    by (simp add: key_matches_def py_eq_same_target [of "get a ''end_frame''"])
  moreover
  from assms have "py_eq (get b ''fighter_color'') fc = py_eq (get b ''fighter_color'') fc'"
    by (simp add: key_matches_def py_eq_same_target [of "get a ''fighter_color''"])
  ultimately show ?thesis by (simp add: key_matches_def)
qed

lemma filter_update_not:
  "\<not> P a \<Longrightarrow> length (filter P (xs[i := a])) \<le> length (filter P xs)"
proof (induction xs arbitrary: i)
  case Nil
  then show ?case by simp
next
  case (Cons x xs)
  then show ?case by (cases i) (auto simp: le_SucI)
qed

lemma unique_keys_empty: "unique_keys []"
  by (simp add: unique_keys_def)

lemma unique_keys_filter: "unique_keys anns \<Longrightarrow> unique_keys (filter P anns)"
proof -
  assume u: "unique_keys anns"
  have "length (filter Q (filter P anns)) \<le> length (filter Q anns)" for Q :: "pydict \<Rightarrow> bool"
    by (induction anns) (auto simp: le_SucI)
  with u show ?thesis
    unfolding unique_keys_def by (meson le_trans)
qed

lemma add_annotation_keeps_unique:
  fixes rt' :: runtime
  assumes "unique_keys (annotations (load_annotations rt s v))"
    and "add_annotation rt s v e c who = (s', aid)"
  shows "unique_keys (annotations (load_annotations rt' s' v))"
proof -
  let ?K = "event_key_matches e c"
  let ?anns = "annotations (load_annotations rt s v)"
  let ?anns' = "annotations (load_annotations rt' s' v)"
  have K: "?K = key_matches (key_start_frame e) (key_end_frame e) (key_fighter_color e c)"
    by (simp add: event_key_matches_def)
  have le1: "length (filter ?K ?anns) \<le> 1"
    using assms(1) unfolding unique_keys_def K by blast
  have "length (filter (key_matches sf ef fc) ?anns') \<le> 1" for sf ef fc
  proof -
    let ?Q = "key_matches sf ef fc"
    have Q1: "length (filter ?Q ?anns) \<le> 1"
      using assms(1) unfolding unique_keys_def by blast
    show ?thesis
    proof (cases "first_index ?K ?anns")
      case None
      from add_annotation_new [OF None, of who] assms(2)
      have eq: "?anns' = ?anns @ [(build_annotation rt v e c who False)(''annotation_id'' \<mapsto> aid)]"
        by auto
      let ?new = "(build_annotation rt v e c who False)(''annotation_id'' \<mapsto> aid)"
      show ?thesis
      proof (cases "?Q ?new")
        case True
        have "?Q x = ?K x" for x
          using key_matches_same_key [OF True, of "key_start_frame e" "key_end_frame e"
              "key_fighter_color e c" x]
            new_annotation_matches [of e c rt v who False aid]
          by (simp add: K)
        then have "?Q = ?K" by (rule ext)
        moreover from None have "filter ?K ?anns = []"
          by (simp add: first_index_None filter_empty_conv)
        ultimately show ?thesis using eq by simp
      next
        case False
        with eq Q1 show ?thesis by simp
      qed
    next
      case (Some i)
      from add_annotation_existing [OF Some, of who] assms(2)
      have eq: "?anns' = ?anns[i := (build_annotation rt v e c who True)(''annotation_id'' \<mapsto> aid)]"
        by auto
      let ?new = "(build_annotation rt v e c who True)(''annotation_id'' \<mapsto> aid)"
      show ?thesis
      proof (cases "?Q ?new")
        case True
        have "?Q x = ?K x" for x
          using key_matches_same_key [OF True, of "key_start_frame e" "key_end_frame e"
              "key_fighter_color e c" x]
            new_annotation_matches [of e c rt v who True aid]
          by (simp add: K)
        then have "?Q = ?K" by (rule ext)
        with filter_update_same [of i ?anns ?K ?new] first_index_Some [OF Some]
          new_annotation_matches [of e c rt v who True aid] le1 eq
        show ?thesis by simp
      next
        case False
        from filter_update_not [of ?Q ?new ?anns i] False Q1 eq show ?thesis by simp
      qed
    qed
  qed
  then show ?thesis by (simp add: unique_keys_def)
qed

lemma delete_annotation_keeps_unique:
  assumes "unique_keys (annotations (load_annotations rt s v))"
    and "delete_annotation rt s v sf ef fc = (s', b)"
  shows "unique_keys (annotations (load_annotations rt s' v))"
proof (cases "b")
  case True
  with assms(2) have "annotations (load_annotations rt s' v) =
      filter (\<lambda>a. \<not> key_matches sf ef fc a) (annotations (load_annotations rt s v))"
    by (auto simp: delete_annotation_def Let_def split: if_splits)
  with unique_keys_filter [OF assms(1)] show ?thesis by simp
next
  case False
  with assms(2) have "s' = s"
    by (auto simp: delete_annotation_def Let_def split: if_splits)
  with assms(1) show ?thesis by simp
qed

text \<open>
  So the invariant holds for every video in every state reached from the empty one by
  calls of the two functions.
\<close>

lemma annotations_load_rt:
  "annotations (load_annotations rt s v) = annotations (load_annotations rt' s v)"
  by (simp add: load_annotations_def split: option.splits)

lemma annotations_other_video:
  "v' \<noteq> v \<Longrightarrow>
   annotations (load_annotations rt (save_annotations s v' d) v) =
   annotations (load_annotations rt s v)"
  by (simp add: load_annotations_def save_annotations_def split: option.splits)

lemma add_annotation_other_video:
  assumes "v' \<noteq> v"
  shows "annotations (load_annotations rt (fst (add_annotation rt' s v' e c who)) v) =
         annotations (load_annotations rt s v)"
  by (cases "first_index (event_key_matches e c) (annotations (load_annotations rt' s v'))")
     (simp_all add: add_annotation_def Let_def annotations_other_video [OF assms])

lemma delete_annotation_other_video:
  assumes "v' \<noteq> v"
  shows "annotations (load_annotations rt (fst (delete_annotation rt' s v' sf ef fc)) v) =
         annotations (load_annotations rt s v)"
  by (simp add: delete_annotation_def Let_def annotations_other_video [OF assms])

lemma run_call_keeps_unique:
  assumes "\<forall>v. unique_keys (annotations (load_annotations rt s v))"
  shows "unique_keys (annotations (load_annotations rt (run_call s c) v))"
proof (cases c)
  case (Add rt' v' e cs who)
  show ?thesis
  proof (cases "v' = v")
    case True
    from assms have "unique_keys (annotations (load_annotations rt' s v))"
      using annotations_load_rt [of rt' s v rt] by simp
    from add_annotation_keeps_unique [where rt' = rt, OF this prod.collapse [symmetric]]
    show ?thesis by (simp add: Add True)
  next
    case False
    with assms show ?thesis by (simp add: Add add_annotation_other_video)
  qed
next
  case (Delete rt' v' sf ef fc)
  show ?thesis
  proof (cases "v' = v")
    case True
    from assms have "unique_keys (annotations (load_annotations rt' s v))"
      using annotations_load_rt [of rt' s v rt] by simp
    from delete_annotation_keeps_unique [OF this prod.collapse [symmetric]]
    have "unique_keys (annotations (load_annotations rt'
            (fst (delete_annotation rt' s v sf ef fc)) v))" .
    then show ?thesis
      using annotations_load_rt [of rt "fst (delete_annotation rt' s v sf ef fc)" v rt']
      by (simp add: Delete True)
  next
    case False
    with assms show ?thesis by (simp add: Delete delete_annotation_other_video)
  qed
qed

lemma run_calls_unique:
  "unique_keys (annotations (load_annotations rt (run_calls empty_store calls) v))"
proof (induction calls arbitrary: v rule: rev_induct)
  case Nil
  show ?case by (simp add: run_calls_def ex_empty_annotations unique_keys_empty)
next
  case (snoc c calls)
  then have "\<forall>v. unique_keys (annotations (load_annotations rt (run_calls empty_store calls) v))"
    by simp
  from run_call_keeps_unique [OF this, of c v] show ?case
    by (simp add: run_calls_def)
qed

subsection \<open>Upsert\<close>

text \<open>
  C1. Two calls of \<^verbatim>\<open>add_annotation\<close> for the same video with the same event and
  corrections, hence the same identity key, on files that hold at most one annotation
  with that key (the invariant of the data model): afterwards exactly one stored
  annotation has the key, and the second call returns the identifier the first returned.
  The clock readings, the uuid and the annotator name of the two calls are arbitrary.
\<close>

theorem add_annotation_idempotent:
  fixes rtc :: runtime
  assumes "length (stored_for rta s v e c) \<le> 1"
    and "add_annotation rta s v e c whoa = (sa, ida)"
    and "add_annotation rtb sa v e c whob = (sb, idb)"
  shows "length (stored_for rtc sb v e c) = 1 \<and> idb = ida"
proof -
  let ?K = "event_key_matches e c"
  let ?anns = "annotations (load_annotations rta s v)"
  let ?anns1 = "annotations (load_annotations rtb sa v)"
  have "first_index ?K ?anns \<noteq> None \<Longrightarrow> filter ?K ?anns \<noteq> []"
    by (simp add: first_index_None filter_empty_conv)
  then have "first_index ?K ?anns \<noteq> None \<Longrightarrow> length (filter ?K ?anns) = 1"
    using assms(1) by (cases "filter ?K ?anns") (auto simp: stored_for_def)
  with add_annotation_effect(2) [OF assms(2), of rtb]
  have one: "length (filter ?K ?anns1) = 1"
    by (simp split: if_splits)
  from add_annotation_effect(1) [OF assms(2), of rtb]
  obtain i where i: "first_index ?K ?anns1 = Some i"
    "get_or (?anns1 ! i) ''annotation_id'' (PStr []) = ida"
    by blast
  from add_annotation_existing [OF i(1), of whob] assms(3) i(2)
  have "idb = ida" by simp
  moreover from add_annotation_effect(2) [OF assms(3), of rtc] i(1) one
  have "length (stored_for rtc sb v e c) = 1"
    by (simp add: stored_for_def)
  ultimately show ?thesis by simp
qed

theorem add_annotation_idempotent_witness:
  "length (stored_for ex_rt empty_store ''match01'' ex_event ex_red) \<le> 1 \<and>
   length (stored_for ex_rt
     (fst (add_annotation ex_rt2
        (fst (add_annotation ex_rt empty_store ''match01'' ex_event ex_red ''Coach''))
        ''match01'' ex_event ex_red ''Coach''))
     ''match01'' ex_event ex_red) = 1 \<and>
   snd (add_annotation ex_rt2
        (fst (add_annotation ex_rt empty_store ''match01'' ex_event ex_red ''Coach''))
        ''match01'' ex_event ex_red ''Coach'') =
   snd (add_annotation ex_rt empty_store ''match01'' ex_event ex_red ''Coach'')"
proof -
  have h: "length (stored_for ex_rt empty_store ''match01'' ex_event ex_red) \<le> 1"
    by (simp add: stored_for_def ex_empty_annotations)
  show ?thesis
    using h add_annotation_idempotent
      [where rtc = ex_rt and rtb = ex_rt2 and whoa = "''Coach''" and whob = "''Coach''",
       OF h prod.collapse [symmetric] prod.collapse [symmetric]]
    by simp
qed

subsection \<open>Delete\<close>

lemma sum_filter_neg: "length (filter P xs) + length (filter (\<lambda>x. \<not> P x) xs) = length xs"
  by (induction xs) auto

text \<open>
  C7. \<^verbatim>\<open>delete_annotation\<close> keeps the records that do not carry the key, in their order,
  and returns whether some record carried it. When none does, the files are left as they
  were and the result is \<open>False\<close>, an ordinary return value. When one does and the files
  hold at most one record per key (the invariant of the data model), exactly one record
  is removed.
\<close>

theorem delete_annotation_removes:
  assumes "delete_annotation rt s v sf ef fc = (s', b)"
  shows "annotations (load_annotations rt s' v) =
           filter (\<lambda>a. \<not> key_matches sf ef fc a) (annotations (load_annotations rt s v)) \<and>
         b = (\<exists>a \<in> set (annotations (load_annotations rt s v)). key_matches sf ef fc a) \<and>
         (\<not> b \<longrightarrow> s' = s) \<and>
         (b \<longrightarrow> length (filter (key_matches sf ef fc) (annotations (load_annotations rt s v))) \<le> 1 \<longrightarrow>
            length (annotations (load_annotations rt s' v)) + 1 =
            length (annotations (load_annotations rt s v)))"
proof -
  let ?K = "key_matches sf ef fc"
  let ?anns = "annotations (load_annotations rt s v)"
  have len: "length (filter ?K ?anns) + length (filter (\<lambda>a. \<not> ?K a) ?anns) = length ?anns"
    by (rule sum_filter_neg)
  show ?thesis
  proof (cases "length (filter (\<lambda>a. \<not> ?K a) ?anns) < length ?anns")
    case True
    with assms have s': "s' = save_annotations s v ((load_annotations rt s v)\<lparr>annotations := filter (\<lambda>a. \<not> ?K a) ?anns\<rparr>)" and b: "b"
      by (auto simp: delete_annotation_def Let_def)
    from True len have pos: "0 < length (filter ?K ?anns)" by auto
    then have ex: "\<exists>a \<in> set ?anns. ?K a"
      by (auto simp: filter_empty_conv)
    have one: "length (filter (\<lambda>a. \<not> ?K a) ?anns) + 1 = length ?anns"
      if "length (filter ?K ?anns) \<le> 1"
      using that pos len by linarith
    from s' b ex one show ?thesis by simp
  next
    case False
    with assms have s': "s' = s" and b: "\<not> b"
      by (auto simp: delete_annotation_def Let_def)
    from False len have "length (filter ?K ?anns) = 0"
      using length_filter_le [of "\<lambda>a. \<not> ?K a" ?anns] by linarith
    then have none: "\<forall>a \<in> set ?anns. \<not> ?K a"
      by (simp add: filter_empty_conv)
    then have "filter (\<lambda>a. \<not> ?K a) ?anns = ?anns"
      by (simp add: filter_id_conv)
    with s' b none show ?thesis by simp
  qed
qed

theorem delete_annotation_removes_witness:
  "snd (delete_annotation ex_rt ex_store_red ''match01'' (PInt 120) (PInt 150) (PStr ''red'')) \<and>
   length (filter (key_matches (PInt 120) (PInt 150) (PStr ''red''))
     (annotations (load_annotations ex_rt ex_store_red ''match01''))) \<le> 1 \<and>
   length (annotations (load_annotations ex_rt
     (fst (delete_annotation ex_rt ex_store_red ''match01'' (PInt 120) (PInt 150) (PStr ''red'')))
     ''match01'')) + 1 =
   length (annotations (load_annotations ex_rt ex_store_red ''match01'')) \<and>
   \<not> snd (delete_annotation ex_rt ex_store_red ''match01'' (PInt 120) (PInt 150) (PStr ''blue'')) \<and>
   fst (delete_annotation ex_rt ex_store_red ''match01'' (PInt 120) (PInt 150) (PStr ''blue'')) =
     ex_store_red"
  using delete_annotation_removes [OF prod.collapse [symmetric],
          of ex_rt ex_store_red "''match01''" "PInt 120" "PInt 150" "PStr ''red''"]
        delete_annotation_removes [OF prod.collapse [symmetric],
          of ex_rt ex_store_red "''match01''" "PInt 120" "PInt 150" "PStr ''blue''"]
  by (simp add: ex_red_annotations ex_red_matches)

subsection \<open>The annotator field\<close>

text \<open>
  C10. After \<^verbatim>\<open>add_annotation\<close> the stored record of the key has \<^verbatim>\<open>annotator\<close> equal to
  \<^verbatim>\<open>"verified"\<close> exactly when a record with the key existed before the call, and to
  \<^verbatim>\<open>"manual"\<close> exactly when none did; its \<^verbatim>\<open>created_at\<close> is the clock reading of this
  call; its \<^verbatim>\<open>annotation_id\<close> is the returned one, which is that of the record it
  replaced when there was one. So an update rewrites \<^verbatim>\<open>annotator\<close> and \<^verbatim>\<open>created_at\<close>
  and carries over the identifier only.
\<close>

theorem add_annotation_annotator:
  fixes rt' :: runtime
  assumes "add_annotation rt s v e c who = (s', aid)"
  shows "\<exists>a. get_annotation_for_event rt' s' v (key_start_frame e) (key_end_frame e)
                (key_fighter_color e c) = Some a \<and>
              (get a ''annotator'' = PStr ''verified'') =
                 (get_annotation_for_event rt s v (key_start_frame e) (key_end_frame e)
                    (key_fighter_color e c) \<noteq> None) \<and>
              (get a ''annotator'' = PStr ''manual'') =
                 (get_annotation_for_event rt s v (key_start_frame e) (key_end_frame e)
                    (key_fighter_color e c) = None) \<and>
              get a ''created_at'' = PStr (now rt) \<and>
              get a ''annotation_id'' = aid \<and>
              (\<forall>old. get_annotation_for_event rt s v (key_start_frame e) (key_end_frame e)
                    (key_fighter_color e c) = Some old \<longrightarrow>
                 aid = get_or old ''annotation_id'' (PStr []))"
proof -
  let ?K = "event_key_matches e c"
  let ?anns = "annotations (load_annotations rt s v)"
  let ?anns' = "annotations (load_annotations rt' s' v)"
  have before: "get_annotation_for_event rt s v (key_start_frame e) (key_end_frame e)
                    (key_fighter_color e c) =
        (case first_index ?K ?anns of None \<Rightarrow> None | Some i \<Rightarrow> Some (?anns ! i))"
    by (simp add: get_annotation_for_event_def find_first_index event_key_matches_def)
  have after: "get_annotation_for_event rt' s' v (key_start_frame e) (key_end_frame e)
                    (key_fighter_color e c) =
        (case first_index ?K ?anns' of None \<Rightarrow> None | Some i \<Rightarrow> Some (?anns' ! i))"
    by (simp add: get_annotation_for_event_def find_first_index event_key_matches_def)
  from add_annotation_effect(1) [OF assms, of rt']
  obtain i where i: "first_index ?K ?anns' = Some i"
    "get (?anns' ! i) ''annotation_id'' = aid"
    "get (?anns' ! i) ''annotator'' =
       PStr (if first_index ?K ?anns = None then ''manual'' else ''verified'')"
    "get (?anns' ! i) ''created_at'' = PStr (now rt)"
    by blast
  have old: "aid = get_or (?anns ! j) ''annotation_id'' (PStr [])"
    if "first_index ?K ?anns = Some j" for j
    using add_annotation_existing [OF that, of who] assms by simp
  show ?thesis
    unfolding before after using i old
    by (auto split: option.splits)
qed

theorem add_annotation_annotator_witness:
  "(\<exists>a. get_annotation_for_event ex_rt ex_store_red ''match01''
          (PInt 120) (PInt 150) (PStr ''red'') = Some a \<and>
        get a ''annotator'' = PStr ''manual'' \<and>
        get a ''annotation_id'' = PStr ''match01_red_120_150_0a1b2c3d'') \<and>
   (\<exists>a. get_annotation_for_event ex_rt
          (fst (add_annotation ex_rt2 ex_store_red ''match01'' ex_event ex_red ''Coach''))
          ''match01'' (PInt 120) (PInt 150) (PStr ''red'') = Some a \<and>
        get a ''annotator'' = PStr ''verified'' \<and>
        get a ''created_at'' = PStr ''2026-01-01T10:05:01'' \<and>
        get a ''annotation_id'' = PStr ''match01_red_120_150_0a1b2c3d'')"
proof -
  have before: "get_annotation_for_event ex_rt2 ex_store_red ''match01''
          (PInt 120) (PInt 150) (PStr ''red'') =
        Some ((build_annotation ex_rt ''match01'' ex_event ex_red ''Coach'' False)
          (''annotation_id'' \<mapsto> PStr ''match01_red_120_150_0a1b2c3d''))"
    by (simp add: get_annotation_for_event_def ex_red_annotations ex_red_matches)
  have now2: "now ex_rt2 = ''2026-01-01T10:05:01''"
    by (simp add: ex_rt2_def)
  have none: "get_annotation_for_event ex_rt empty_store ''match01''
          (PInt 120) (PInt 150) (PStr ''red'') = None"
    by (simp add: get_annotation_for_event_def ex_empty_annotations)
  have first: "snd (add_annotation ex_rt empty_store ''match01'' ex_event ex_red ''Coach'') =
      PStr ''match01_red_120_150_0a1b2c3d''"
    by (subst add_annotation_new)
       (simp_all add: ex_empty_annotations ex_keys str120 ex_rt_def)
  from add_annotation_annotator
    [OF prod.collapse [symmetric], of ex_rt ex_rt empty_store "''match01''" ex_event ex_red
      "''Coach''"]
  have one: "\<exists>a. get_annotation_for_event ex_rt ex_store_red ''match01''
          (PInt 120) (PInt 150) (PStr ''red'') = Some a \<and>
        get a ''annotator'' = PStr ''manual'' \<and>
        get a ''annotation_id'' = PStr ''match01_red_120_150_0a1b2c3d''"
    by (auto simp add: ex_keys none first ex_store_red_def)
  from add_annotation_annotator
    [OF prod.collapse [symmetric], of ex_rt ex_rt2 ex_store_red "''match01''" ex_event ex_red
      "''Coach''"]
  have two: "\<exists>a. get_annotation_for_event ex_rt
          (fst (add_annotation ex_rt2 ex_store_red ''match01'' ex_event ex_red ''Coach''))
          ''match01'' (PInt 120) (PInt 150) (PStr ''red'') = Some a \<and>
        get a ''annotator'' = PStr ''verified'' \<and>
        get a ''created_at'' = PStr ''2026-01-01T10:05:01'' \<and>
        get a ''annotation_id'' = PStr ''match01_red_120_150_0a1b2c3d''"
    by (auto simp add: ex_keys before get_build_annotation get_or_def now2)
  from one two show ?thesis by simp
qed

subsection \<open>Progress statistics\<close>

lemma round_half_even_le: "x \<le> of_int k \<Longrightarrow> round_half_even x \<le> k"
proof -
  assume a: "x \<le> of_int k"
  then have fk: "\<lfloor>x\<rfloor> \<le> k" by (simp add: floor_le_iff) 
  show ?thesis
  proof (cases "\<lfloor>x\<rfloor> = k")
    case True
    with a have "x = of_int \<lfloor>x\<rfloor>"
      using of_int_floor_le [of x] by simp
    then have "x - of_int \<lfloor>x\<rfloor> = 0" by simp
    then show ?thesis using True
      by (simp add: round_half_even_def Let_def)
  next
    case False
    with fk have "\<lfloor>x\<rfloor> + 1 \<le> k" by simp
    then show ?thesis using fk
      by (simp add: round_half_even_def Let_def)
  qed
qed

lemma round_half_even_ge: "of_int k \<le> x \<Longrightarrow> k \<le> round_half_even x"
proof -
  assume "of_int k \<le> x"
  then have "k \<le> \<lfloor>x\<rfloor>" by (simp add: le_floor_iff)
  then show ?thesis
    by (simp add: round_half_even_def Let_def)
qed

lemma py_round1_bounds:
  "0 \<le> x \<Longrightarrow> 0 \<le> py_round1 x" "x \<le> 100 \<Longrightarrow> py_round1 x \<le> 100"
proof -
  show "0 \<le> py_round1 x" if "0 \<le> x"
    using round_half_even_ge [of 0 "x * 10"] that by (simp add: py_round1_def)
  show "py_round1 x \<le> 100" if "x \<le> 100"
  proof -
    from that have "round_half_even (x * 10) \<le> 1000"
      using round_half_even_le [of "x * 10" 1000] by simp
    then have "(of_int (round_half_even (x * 10)) :: rat) \<le> 1000"
      by (metis of_int_le_iff of_int_numeral)
    then show ?thesis by (simp add: py_round1_def)
  qed
qed

lemma stats_hold:
  "st_annotated (get_annotation_stats rt s v N) = int (length (annotations (load_annotations rt s v)))"
  "0 \<le> st_remaining (get_annotation_stats rt s v N)"
  "0 \<le> st_progress_pct (get_annotation_stats rt s v N)"
  "int (length (annotations (load_annotations rt s v))) \<le> N \<Longrightarrow>
     st_progress_pct (get_annotation_stats rt s v N) \<le> 100"
proof -
  let ?n = "int (length (annotations (load_annotations rt s v)))"
  show "st_annotated (get_annotation_stats rt s v N) = ?n"
    by (simp add: get_annotation_stats_def Let_def)
  show "0 \<le> st_remaining (get_annotation_stats rt s v N)"
    by (simp add: get_annotation_stats_def Let_def)
  have q: "(0::rat) \<le> of_int ?n / of_int (max 1 N) * 100"
    by simp
  show "0 \<le> st_progress_pct (get_annotation_stats rt s v N)"
    using py_round1_bounds(1) [OF q] by (simp add: get_annotation_stats_def Let_def)
  show "st_progress_pct (get_annotation_stats rt s v N) \<le> 100" if "?n \<le> N"
  proof -
    from that have "?n \<le> max 1 N" by simp
    then have "(of_int ?n :: rat) \<le> of_int (max 1 N)"
      by (simp only: of_int_le_iff)
    moreover have "(0::rat) < of_int (max 1 N)" by simp
    ultimately have "(of_int ?n :: rat) / of_int (max 1 N) \<le> 1"
      by (simp add: divide_le_eq_1)
    from mult_right_mono [OF this, of 100]
    have "(of_int ?n :: rat) / of_int (max 1 N) * 100 \<le> 100" by simp
    from py_round1_bounds(2) [OF this] show ?thesis
      by (simp add: get_annotation_stats_def Let_def)
  qed
qed

text \<open>
  C2. With one event and the annotations of both of its fighters stored, the statistics
  report two annotated, none remaining and a progress of 200 percent.
\<close>

theorem stats_progress_over_100:
  "st_annotated (get_annotation_stats ex_rt ex_store_both ''match01'' 1) = 2 \<and>
   st_remaining (get_annotation_stats ex_rt ex_store_both ''match01'' 1) = 0 \<and>
   st_progress_pct (get_annotation_stats ex_rt ex_store_both ''match01'' 1) = 200"
  by (simp add: get_annotation_stats_def Let_def ex_both_annotations py_round1_def
      round_half_even_def)

section \<open>The text of the match-group file\<close>

subsection \<open>Strings and numbers\<close>

lemma hex_val_hex_digit: "k < 16 \<Longrightarrow> hex_val (hex_digit k) = Some k"
proof -
  assume "k < 16"
  then have "k = 0 \<or> k = 1 \<or> k = 2 \<or> k = 3 \<or> k = 4 \<or> k = 5 \<or> k = 6 \<or> k = 7 \<or>
             k = 8 \<or> k = 9 \<or> k = 10 \<or> k = 11 \<or> k = 12 \<or> k = 13 \<or> k = 14 \<or> k = 15"
    by arith
  then show ?thesis
    by (elim disjE) (simp_all add: hex_val_def hex_digit_def upt_rec)
qed

lemma hex4_control:
  assumes "n < 32"
  shows "hex4 CHR ''0'' CHR ''0'' (hex_digit (n div 16)) (hex_digit (n mod 16)) = Some n"
proof -
  from assms have "n div 16 < 16" by simp
  then have a: "hex_val (hex_digit (n div 16)) = Some (n div 16)" by (rule hex_val_hex_digit)
  have b: "hex_val (hex_digit (n mod 16)) = Some (n mod 16)" by (rule hex_val_hex_digit) simp
  have z: "hex_val CHR ''0'' = Some 0" by (simp add: hex_val_def upt_rec)
  show ?thesis by (simp add: hex4_def a b z)
qed

lemma scan_string_encode_char:
  "scan_string (encode_char c @ t) = map_option (apfst ((#) c)) (scan_string t)"
proof -
  have u: "char_of (of_char c :: nat) = c" by simp
  have lt: "(of_char c :: nat) < 32 \<Longrightarrow> (of_char c :: nat) < 128" by simp
  show ?thesis
    by (simp add: encode_char_def unescape_def hex4_control u lt)
qed

lemma scan_string_encoded:
  "scan_string (concat (map encode_char s) @ CHR 0x22 # rest) = Some (s, rest)"
  by (induction s) (simp_all add: scan_string_encode_char)

lemma digit_char_facts:
  assumes "d < 10"
  shows "is_digit (digit_char d)" and "digit_val (digit_char d) = d"
    and "0 < d \<Longrightarrow> digit_char d \<noteq> CHR ''0''"
proof -
  from assms have c: "d = 0 \<or> d = 1 \<or> d = 2 \<or> d = 3 \<or> d = 4 \<or> d = 5 \<or> d = 6 \<or> d = 7 \<or>
      d = 8 \<or> d = 9"
    by arith
  from c show "is_digit (digit_char d)"
    by (elim disjE) (simp_all add: is_digit_def digit_char_def)
  from c show "digit_val (digit_char d) = d"
    by (elim disjE) (simp_all add: digit_val_def digit_char_def upt_rec)
  from c show "0 < d \<Longrightarrow> digit_char d \<noteq> CHR ''0''"
    by (elim disjE) (simp_all add: digit_char_def)
qed

lemma str_nat_digits: "\<forall>c \<in> set (str_nat n). is_digit c"
proof (induction n rule: str_nat.induct)
  case (1 n)
  show ?case
  proof (cases "n < 10")
    case True
    then show ?thesis by (subst str_nat.simps) (simp add: digit_char_facts(1))
  next
    case False
    with 1 show ?thesis
      by (subst str_nat.simps) (simp add: digit_char_facts(1))
  qed
qed

lemma str_nat_nonempty: "str_nat n \<noteq> []"
  by (subst str_nat.simps) simp

lemma nat_of_digits_snoc: "nat_of_digits (ds @ [c]) = 10 * nat_of_digits ds + digit_val c"
  by (simp add: nat_of_digits_def)

lemma nat_of_digits_str_nat: "nat_of_digits (str_nat n) = n"
proof (induction n rule: str_nat.induct)
  case (1 n)
  show ?case
  proof (cases "n < 10")
    case True
    then show ?thesis
      by (subst str_nat.simps) (simp add: nat_of_digits_def digit_char_facts(2))
  next
    case False
    with 1 have "nat_of_digits (str_nat (n div 10)) = n div 10" by simp
    with False show ?thesis
      by (subst str_nat.simps) (simp add: nat_of_digits_snoc digit_char_facts(2))
  qed
qed

lemma str_nat_hd: "0 < n \<Longrightarrow> hd (str_nat n) \<noteq> CHR ''0''"
proof (induction n rule: str_nat.induct)
  case (1 n)
  show ?case
  proof (cases "n < 10")
    case True
    with "1.prems" show ?thesis
      by (subst str_nat.simps) (simp add: digit_char_facts(3))
  next
    case False
    then have "0 < n div 10" by simp
    with 1 False have "hd (str_nat (n div 10)) \<noteq> CHR ''0''" by simp
    with False show ?thesis
      by (subst str_nat.simps) (simp add: str_nat_nonempty)
  qed
qed

lemma takeWhile_digits:
  "follow_ok rest \<Longrightarrow> takeWhile is_digit (str_nat n @ rest) = str_nat n"
  "follow_ok rest \<Longrightarrow> dropWhile is_digit (str_nat n @ rest) = rest"
  using str_nat_digits [of n]
  by (auto simp: follow_ok_def takeWhile_append dropWhile_append split: list.splits)

lemma str_nat_0: "str_nat 0 = ''0''"
  by (subst str_nat.simps) (simp add: digit_char_def)

lemma scan_nat_str_nat:
  assumes "follow_ok rest"
  shows "scan_nat (str_nat n @ rest) = Some (n, rest)"
proof (cases "n = 0")
  case True
  then show ?thesis by (simp add: str_nat_0 scan_nat_def)
next
  case False
  obtain c r where cr: "str_nat n = c # r"
    using str_nat_nonempty [of n] by (cases "str_nat n") auto
  with str_nat_hd [of n] False have c0: "c \<noteq> CHR ''0''" by simp
  from cr str_nat_digits [of n] have cd: "is_digit c" by simp
  have "scan_nat (str_nat n @ rest) =
      Some (nat_of_digits (takeWhile is_digit (str_nat n @ rest)),
            dropWhile is_digit (str_nat n @ rest))"
    using c0 cd by (simp add: scan_nat_def cr)
  with assms show ?thesis
    by (simp add: takeWhile_digits nat_of_digits_str_nat)
qed

lemma scan_number_str_int:
  assumes "follow_ok rest"
  shows "scan_number (str_int i @ rest) = Some (i, rest)"
proof -
  have follow: "(case rest of c # r' \<Rightarrow> if c = CHR ''.'' \<or> c = CHR ''e'' \<or> c = CHR ''E'' then None else Some (i, rest)
           | [] \<Rightarrow> Some (i, rest)) = Some (i, rest)"
    using assms by (auto simp: follow_ok_def split: list.splits)
  show ?thesis
  proof (cases "i < 0")
    case True
    then show ?thesis
      using follow by (simp add: str_int_def scan_number_def scan_nat_str_nat [OF assms])
  next
    case False
    obtain c r where cr: "str_nat (nat i) = c # r"
      using str_nat_nonempty [of "nat i"] by (cases "str_nat (nat i)") auto
    with str_nat_digits [of "nat i"] have "is_digit c" by simp
    then have "c \<noteq> CHR ''-''" by (auto simp: is_digit_def)
    with False cr scan_nat_str_nat [OF assms, of "nat i"] follow show ?thesis
      by (simp add: str_int_def scan_number_def)
  qed
qed

subsection \<open>Decoding what the encoder wrote\<close>

lemma skip_ws_newline_indent:
  "skip_ws (newline_indent n @ c # t) = skip_ws (c # t)"
  by (simp add: skip_ws_def newline_indent_def is_ws_def dropWhile_append)

lemma skip_ws_id: "\<not> is_ws c \<Longrightarrow> skip_ws (c # t) = c # t"
  by (simp add: skip_ws_def)

lemma str_int_hd: "\<exists>c r. str_int i = c # r \<and> (is_digit c \<or> c = CHR ''-'')"
proof (cases "i < 0")
  case True
  then show ?thesis by (simp add: str_int_def)
next
  case False
  obtain c r where cr: "str_nat (nat i) = c # r"
    using str_nat_nonempty [of "nat i"] by (cases "str_nat (nat i)") auto
  with str_nat_digits [of "nat i"] have "is_digit c" by simp
  with False cr show ?thesis by (simp add: str_int_def)
qed

lemma digit_start: "is_digit c \<or> c = CHR ''-'' \<Longrightarrow> value_start c"
  by (auto simp: is_digit_def value_start_def is_ws_def)

lemma dumps_hd: "\<exists>c r. dumps n j = c # r \<and> value_start c"
proof (cases j)
  case (JInt i)
  with str_int_hd [of i] digit_start show ?thesis by auto
qed (auto simp: value_start_def is_ws_def encode_string_def)

lemma encode_string_hd: "\<exists>r. encode_string k @ t = CHR 0x22 # r"
  by (simp add: encode_string_def)

lemma scan_string_encode_string:
  "scan_string (tl (encode_string s @ rest)) = Some (s, rest)"
  by (simp add: encode_string_def scan_string_encoded)

lemma follow_ok_simps:
  "follow_ok (CHR '','' # t)" "follow_ok (newline_indent n @ t)" "follow_ok []"
  by (simp_all add: follow_ok_def is_digit_def newline_indent_def)

lemma scan_value_scalar:
  assumes "follow_ok rest"
  shows "scan_value (Suc f) (dumps n JNull @ rest) = Some (JNull, rest)"
    and "scan_value (Suc f) (dumps n (JBool b) @ rest) = Some (JBool b, rest)"
    and "scan_value (Suc f) (dumps n (JStr s) @ rest) = Some (JStr s, rest)"
    and "scan_value (Suc f) (dumps n (JInt i) @ rest) = Some (JInt i, rest)"
proof -
  show "scan_value (Suc f) (dumps n JNull @ rest) = Some (JNull, rest)" by simp
  show "scan_value (Suc f) (dumps n (JBool b) @ rest) = Some (JBool b, rest)" by simp
  show "scan_value (Suc f) (dumps n (JStr s) @ rest) = Some (JStr s, rest)"
    by (simp add: encode_string_def scan_string_encoded)
  obtain c r where cr: "str_int i = c # r" "is_digit c \<or> c = CHR ''-''"
    using str_int_hd [of i] by blast
  then have ne: "c \<noteq> CHR 0x22" "c \<noteq> CHR ''{''" "c \<noteq> CHR ''[''" "c \<noteq> CHR ''n''"
    "c \<noteq> CHR ''t''" "c \<noteq> CHR ''f''"
    by (auto simp: is_digit_def)
  have "scan_value (Suc f) (str_int i @ rest) = map_option (apfst JInt) (scan_number (str_int i @ rest))"
    using ne by (simp add: cr(1))
  with scan_number_str_int [OF assms, of i]
  show "scan_value (Suc f) (dumps n (JInt i) @ rest) = Some (JInt i, rest)" by simp
qed

lemma dumps_arr: "xs \<noteq> [] \<Longrightarrow>
   dumps n (JArr xs) = CHR ''['' # newline_indent (Suc n) @ arr_body (Suc n) xs @
     newline_indent n @ '']''"
  by (simp add: arr_body_def)

lemma dumps_obj: "ms \<noteq> [] \<Longrightarrow>
   dumps n (JObj ms) = CHR ''{'' # newline_indent (Suc n) @ obj_body (Suc n) ms @
     newline_indent n @ ''}''"
  by (simp add: obj_body_def obj_member_def)

lemma dumps_empty: "dumps n (JArr []) = ''[]''" "dumps n (JObj []) = ''{}''"
  by simp_all

declare dumps.simps(5,6) [simp del]

lemma arr_body_simps:
  "arr_body n [x] = dumps n x"
  "arr_body n (x # y # ys) = dumps n x @ CHR '','' # newline_indent n @ arr_body n (y # ys)"
  by (simp_all add: arr_body_def)

lemma obj_body_simps:
  "obj_body n [(k, v)] = encode_string k @ '': '' @ dumps n v"
  "obj_body n ((k, v) # m # ms) =
     encode_string k @ '': '' @ dumps n v @ CHR '','' # newline_indent n @ obj_body n (m # ms)"
  by (simp_all add: obj_body_def obj_member_def)

lemma arr_body_hd: "xs \<noteq> [] \<Longrightarrow> \<exists>c r. arr_body n xs @ t = c # r \<and> value_start c"
proof (cases xs)
  case Nil
  then show "xs \<noteq> [] \<Longrightarrow> ?thesis" by simp
next
  case (Cons x ys)
  obtain c r where "dumps n x = c # r" "value_start c"
    using dumps_hd by blast
  with Cons show ?thesis
    by (cases ys) (simp_all add: arr_body_simps)
qed

lemma obj_body_hd: "ms \<noteq> [] \<Longrightarrow> \<exists>r. obj_body n ms @ t = CHR 0x22 # r"
proof (cases ms)
  case Nil
  then show "ms \<noteq> [] \<Longrightarrow> ?thesis" by simp
next
  case (Cons m ys)
  obtain k v where "m = (k, v)" by (cases m)
  with Cons show ?thesis
    by (cases ys) (simp_all add: obj_body_simps encode_string_def)
qed

lemma after_value_close:
  "skip_ws (newline_indent m @ CHR '']'' # rest) = CHR '']'' # rest"
  "skip_ws (newline_indent m @ CHR ''}'' # rest) = CHR ''}'' # rest"
  by (simp_all add: skip_ws_newline_indent skip_ws_id is_ws_def)

lemma after_value_comma: "skip_ws (CHR '','' # t) = CHR '','' # t"
  by (simp add: skip_ws_id is_ws_def)

lemma skip_to_value:
  assumes "value_start c"
  shows "skip_ws (newline_indent n @ c # r) = c # r" and "skip_ws (CHR '' '' # c # r) = c # r"
  using assms by (simp_all add: skip_ws_newline_indent skip_ws_id value_start_def)
     (simp add: skip_ws_def is_ws_def)

lemma update_fresh: "k \<notin> fst ` set d \<Longrightarrow> AList.update k v d = d @ [(k, v)]"
  by (induction d) auto

lemma foldl_update_distinct:
  "distinct (map fst (d @ ps)) \<Longrightarrow>
   foldl (\<lambda>d (k, v). AList.update k v d) d ps = d @ ps"
proof (induction ps arbitrary: d)
  case Nil
  then show ?case by simp
next
  case (Cons p ps)
  obtain k v where p: "p = (k, v)" by (cases p)
  from Cons.prems p have "k \<notin> fst ` set d" by auto
  then have u: "AList.update k v d = d @ [(k, v)]" by (rule update_fresh)
  from Cons.prems p have "distinct (map fst ((d @ [(k, v)]) @ ps))" by simp
  from Cons.IH [OF this] u p show ?case by simp
qed

lemma py_dict_distinct: "distinct (map fst ps) \<Longrightarrow> py_dict ps = ps"
  using foldl_update_distinct [of "[]" ps] by (simp add: py_dict_def)

lemma scan_round_trip:
  "proper j \<longrightarrow> (\<forall>f n rest. fuel j \<le> f \<longrightarrow> follow_ok rest \<longrightarrow>
     scan_value f (dumps n j @ rest) = Some (j, rest))"
  "xs \<noteq> [] \<and> (\<forall>x \<in> set xs. proper x) \<longrightarrow> (\<forall>f n m rest. fuel_list xs \<le> f \<longrightarrow>
     scan_array f (arr_body n xs @ newline_indent m @ CHR '']'' # rest) = Some (xs, rest))"
  "ms \<noteq> [] \<and> (\<forall>(k, v) \<in> set ms. proper v) \<longrightarrow> (\<forall>f n m rest. fuel_members ms \<le> f \<longrightarrow>
     scan_object f (obj_body n ms @ newline_indent m @ CHR ''}'' # rest) = Some (ms, rest))"
proof (induction j and xs and ms rule: fuel_fuel_list_fuel_members.induct)
  case 1
  show ?case
  proof (intro allI impI)
    fix f n rest assume "proper JNull" "fuel JNull \<le> f" "follow_ok rest"
    then obtain f' where "f = Suc f'" by (cases f) auto
    with scan_value_scalar(1) [OF \<open>follow_ok rest\<close>]
    show "scan_value f (dumps n JNull @ rest) = Some (JNull, rest)" by blast
  qed
next
  case (2 b)
  show ?case
  proof (intro allI impI)
    fix f n rest assume "proper (JBool b)" "fuel (JBool b) \<le> f" "follow_ok rest"
    then obtain f' where "f = Suc f'" by (cases f) auto
    with scan_value_scalar(2) [OF \<open>follow_ok rest\<close>]
    show "scan_value f (dumps n (JBool b) @ rest) = Some (JBool b, rest)" by blast
  qed
next
  case (3 i)
  show ?case
  proof (intro allI impI)
    fix f n rest assume "proper (JInt i)" "fuel (JInt i) \<le> f" "follow_ok rest"
    then obtain f' where "f = Suc f'" by (cases f) auto
    with scan_value_scalar(4) [OF \<open>follow_ok rest\<close>]
    show "scan_value f (dumps n (JInt i) @ rest) = Some (JInt i, rest)" by blast
  qed
next
  case (4 s)
  show ?case
  proof (intro allI impI)
    fix f n rest assume "proper (JStr s)" "fuel (JStr s) \<le> f" "follow_ok rest"
    then obtain f' where "f = Suc f'" by (cases f) auto
    with scan_value_scalar(3) [OF \<open>follow_ok rest\<close>]
    show "scan_value f (dumps n (JStr s) @ rest) = Some (JStr s, rest)" by blast
  qed
next
  case (5 xs)
  show ?case
  proof (intro allI impI)
    fix f n rest assume pr: "proper (JArr xs)" and f: "fuel (JArr xs) \<le> f" and "follow_ok rest"
    then obtain f' where f': "f = Suc f'" "fuel_list xs \<le> f'" by (cases f) auto
    show "scan_value f (dumps n (JArr xs) @ rest) = Some (JArr xs, rest)"
    proof (cases "xs = []")
      case True
      then show ?thesis by (simp add: f' skip_ws_id is_ws_def dumps_empty)
    next
      case False
      obtain c r where cr: "arr_body (Suc n) xs @ newline_indent n @ CHR '']'' # rest = c # r"
        "value_start c"
        using arr_body_hd [OF False] by blast
      from pr have "\<forall>x \<in> set xs. proper x" by simp
      with 5 False f'(2)
      have "scan_array f' (arr_body (Suc n) xs @ newline_indent n @ CHR '']'' # rest) =
          Some (xs, rest)" by blast
      with cr have "scan_array f' (c # r) = Some (xs, rest)" by simp
      moreover have "skip_ws (newline_indent (Suc n) @ c # r) = c # r"
        using cr(2) by (rule skip_to_value)
      moreover have "c \<noteq> CHR '']''" using cr(2) by (simp add: value_start_def)
      ultimately show ?thesis
        using cr(1) by (simp add: dumps_arr [OF False] f')
    qed
  qed
next
  case (6 ms)
  show ?case
  proof (intro allI impI)
    fix f n rest assume pr: "proper (JObj ms)" and f: "fuel (JObj ms) \<le> f" and "follow_ok rest"
    then obtain f' where f': "f = Suc f'" "fuel_members ms \<le> f'" by (cases f) auto
    show "scan_value f (dumps n (JObj ms) @ rest) = Some (JObj ms, rest)"
    proof (cases "ms = []")
      case True
      then show ?thesis by (simp add: f' skip_ws_id is_ws_def dumps_empty)
    next
      case False
      obtain r where cr: "obj_body (Suc n) ms @ newline_indent n @ CHR ''}'' # rest = CHR 0x22 # r"
        using obj_body_hd [OF False] by blast
      from pr have "\<forall>(k, v) \<in> set ms. proper v" by simp
      with 6 False f'(2)
      have "scan_object f' (obj_body (Suc n) ms @ newline_indent n @ CHR ''}'' # rest) =
          Some (ms, rest)" by blast
      with cr have "scan_object f' (CHR 0x22 # r) = Some (ms, rest)" by simp
      moreover have "skip_ws (newline_indent (Suc n) @ CHR 0x22 # r) = CHR 0x22 # r"
        by (rule skip_to_value) (simp add: value_start_def is_ws_def)
      moreover from pr have "py_dict ms = ms" by (simp add: py_dict_distinct)
      ultimately show ?thesis
        using cr by (simp add: dumps_obj [OF False] f')
    qed
  qed
next
  case 7
  show ?case by simp
next
  case (8 x xs)
  show ?case
  proof (intro allI impI)
    fix f n m rest
    assume pr0: "x # xs \<noteq> [] \<and> (\<forall>x \<in> set (x # xs). proper x)"
      and fu: "fuel_list (x # xs) \<le> f"
    from pr0 have pr: "proper x" and prs: "\<forall>x \<in> set xs. proper x" by simp_all
    from fu obtain f' where f': "f = Suc f'" "fuel x \<le> f'" "fuel_list xs \<le> f'"
      by (cases f) auto
    show "scan_array f (arr_body n (x # xs) @ newline_indent m @ CHR '']'' # rest) =
        Some (x # xs, rest)"
    proof (cases xs)
      case Nil
      from 8(1) f'(2) follow_ok_simps(2) pr
      have "scan_value f' (dumps n x @ newline_indent m @ CHR '']'' # rest) =
          Some (x, newline_indent m @ CHR '']'' # rest)" by blast
      then show ?thesis
        by (simp add: Nil arr_body_simps f' after_value_close)
    next
      case (Cons y ys)
      let ?tail = "arr_body n (y # ys) @ newline_indent m @ CHR '']'' # rest"
      from 8(1) f'(2) follow_ok_simps(1) pr
      have v: "scan_value f' (dumps n x @ CHR '','' # newline_indent n @ ?tail) =
          Some (x, CHR '','' # newline_indent n @ ?tail)" by blast
      obtain c r where cr: "?tail = c # r" "value_start c"
        using arr_body_hd [of "y # ys" n "newline_indent m @ CHR '']'' # rest"] by blast
      from 8(2) Cons f'(3) prs have "scan_array f' ?tail = Some (xs, rest)" by auto
      moreover have "skip_ws (newline_indent n @ ?tail) = ?tail"
        unfolding cr(1) using cr(2) by (rule skip_to_value)
      ultimately show ?thesis
        using v by (simp add: Cons arr_body_simps f' after_value_comma)
    qed
  qed
next
  case 9
  show ?case by simp
next
  case (10 k v ms)
  show ?case
  proof (intro allI impI)
    fix f n m rest
    assume pr0: "(k, v) # ms \<noteq> [] \<and> (\<forall>(k, v) \<in> set ((k, v) # ms). proper v)"
      and fu: "fuel_members ((k, v) # ms) \<le> f"
    from pr0 have pr: "proper v" and prs: "\<forall>(k, v) \<in> set ms. proper v" by simp_all
    from fu obtain f' where f': "f = Suc f'" "fuel v \<le> f'" "fuel_members ms \<le> f'"
      by (cases f) auto
    obtain c r where cr: "dumps n v = c # r" "value_start c"
      using dumps_hd by blast
    have key: "scan_string (concat (map encode_char k) @ CHR 0x22 # t) = Some (k, t)" for t
      by (rule scan_string_encoded)
    have colon: "skip_ws (CHR '':'' # t) = CHR '':'' # t" for t
      by (simp add: skip_ws_id is_ws_def)
    have sp: "skip_ws (CHR '' '' # dumps n v @ t) = dumps n v @ t" for t
      unfolding cr(1) using skip_to_value(2) [OF cr(2)] by simp
    show "scan_object f (obj_body n ((k, v) # ms) @ newline_indent m @ CHR ''}'' # rest) =
        Some ((k, v) # ms, rest)"
    proof (cases ms)
      case Nil
      from 10(1) f'(2) follow_ok_simps(2) pr
      have "scan_value f' (dumps n v @ newline_indent m @ CHR ''}'' # rest) =
          Some (v, newline_indent m @ CHR ''}'' # rest)" by blast
      then show ?thesis
        by (simp add: Nil obj_body_simps f' encode_string_def key colon sp after_value_close)
    next
      case (Cons y ys)
      let ?tail = "obj_body n (y # ys) @ newline_indent m @ CHR ''}'' # rest"
      from 10(1) f'(2) follow_ok_simps(1) pr
      have v: "scan_value f' (dumps n v @ CHR '','' # newline_indent n @ ?tail) =
          Some (v, CHR '','' # newline_indent n @ ?tail)" by blast
      obtain r' where cr': "?tail = CHR 0x22 # r'"
        using obj_body_hd [of "y # ys" n "newline_indent m @ CHR ''}'' # rest"] by blast
      from 10(2) Cons f'(3) prs have "scan_object f' ?tail = Some (ms, rest)" by auto
      moreover have "skip_ws (newline_indent n @ ?tail) = ?tail"
        unfolding cr' by (rule skip_to_value) (simp add: value_start_def is_ws_def)
      ultimately show ?thesis
        using v
        by (simp add: Cons obj_body_simps f' encode_string_def key colon sp after_value_comma)
    qed
  qed
qed

lemma fuel_le_length:
  "fuel j \<le> length (dumps n j)"
  "xs \<noteq> [] \<longrightarrow> fuel_list xs \<le> Suc (length (arr_body n xs))"
  "ms \<noteq> [] \<longrightarrow> fuel_members ms \<le> Suc (length (obj_body n ms))"
proof (induction j and xs and ms arbitrary: n and n and n rule: fuel_fuel_list_fuel_members.induct)
  case (3 i)
  obtain c r where "str_int i = c # r" using str_int_hd by blast
  then show ?case by simp
next
  case (4 s)
  show ?case by (simp add: encode_string_def)
next
  case (5 xs)
  show ?case
  proof (cases "xs = []")
    case True
    then show ?thesis by (simp add: dumps_empty)
  next
    case False
    with 5 [of "Suc n"] show ?thesis by (simp add: dumps_arr)
  qed
next
  case (6 ms)
  show ?case
  proof (cases "ms = []")
    case True
    then show ?thesis by (simp add: dumps_empty)
  next
    case False
    with 6 [of "Suc n"] show ?thesis by (simp add: dumps_obj)
  qed
next
  case (8 x xs)
  show ?case
  proof (cases xs)
    case Nil
    with 8(1) [of n] show ?thesis by (simp add: arr_body_simps)
  next
    case (Cons y ys)
    with 8(1) [of n] 8(2) [of n] show ?thesis by (simp add: arr_body_simps)
  qed
next
  case (10 k v ms)
  show ?case
  proof (cases ms)
    case Nil
    with 10(1) [of n] show ?thesis by (simp add: obj_body_simps)
  next
    case (Cons y ys)
    with 10(1) [of n] 10(2) [of n] show ?thesis by (simp add: obj_body_simps)
  qed
qed simp_all

lemma loads_dumps: "proper j \<Longrightarrow> loads (dumps 0 j) = Some j"
proof -
  assume pr: "proper j"
  obtain c r where cr: "dumps 0 j = c # r" "value_start c"
    using dumps_hd by blast
  then have "skip_ws (dumps 0 j) = dumps 0 j"
    by (simp add: skip_ws_id value_start_def)
  moreover from scan_round_trip(1) [of j] fuel_le_length(1) [of j 0] follow_ok_simps(3) pr
  have "scan_value (length (dumps 0 j)) (dumps 0 j @ []) = Some (j, [])" by blast
  ultimately show ?thesis
    by (simp add: loads_def skip_ws_def)
qed

subsection \<open>Collections of match groups\<close>

lemma those_map_Some: "(\<forall>x \<in> set xs. f x = Some (g x)) \<Longrightarrow> those (map f xs) = Some (map g xs)"
  by (induction xs) simp_all

lemma json_video_json: "json_video (video_json v) = Some v"
  by (simp add: json_video_def video_json_def)

lemma json_group_json: "json_group (group_json g) = Some g"
proof -
  have "those (map json_video (map video_json (g_videos g))) = Some (g_videos g)"
    using those_map_Some [of "g_videos g" "json_video \<circ> video_json" id]
    by (simp add: json_video_json)
  then show ?thesis
    by (simp add: json_group_def group_json_def)
qed

lemma json_matches_json: "json_matches (matches_json m) = Some m"
proof -
  have "those (map (\<lambda>(match_name, g). map_option (Pair match_name) (json_group g))
          (map (\<lambda>(match_name, g). (match_name, group_json g)) m)) = Some (map id m)"
    unfolding map_map
    by (rule those_map_Some) (auto simp: json_group_json)
  then show ?thesis
    by (simp add: json_matches_def matches_json_def)
qed

lemma proper_matches_json: "distinct (map fst m) \<Longrightarrow> proper (matches_json m)"
proof -
  assume d: "distinct (map fst m)"
  have keys: "fst \<circ> (\<lambda>(match_name, g). (match_name, group_json g)) = fst"
    by (auto simp: fun_eq_iff)
  have "proper (group_json g)" for g
    by (auto simp: group_json_def video_json_def)
  then have "\<forall>(k, v) \<in> set (map (\<lambda>(match_name, g). (match_name, group_json g)) m). proper v"
    by auto
  with d show ?thesis
    by (simp add: matches_json_def keys)
qed

lemma read_write_matches: "distinct (map fst m) \<Longrightarrow> read_matches (write_matches m) = Some m"
  by (simp add: read_matches_def write_matches_def loads_dumps proper_matches_json
      json_matches_json)

section \<open>The match groups\<close>

subsection \<open>Lists of videos\<close>

lemma set_update_subset:
  "x \<in> set (AList.update k v al) \<Longrightarrow> x = (k, v) \<or> x \<in> set al"
  by (induction al) (auto split: if_splits)

lemma set_part_None: "set_part vs stem p = None \<longleftrightarrow> stem \<notin> v_video_stem ` set vs"
  by (induction vs) auto

lemma set_part_stems:
  "set_part vs stem p = Some vs' \<Longrightarrow> map v_video_stem vs' = map v_video_stem vs"
  by (induction vs arbitrary: vs') (auto split: if_splits)

lemma set_part_parts:
  "set_part vs stem p = Some vs' \<Longrightarrow> distinct (map v_video_stem vs) \<Longrightarrow>
   v \<in> set vs' \<Longrightarrow> v_video_stem v = stem \<Longrightarrow> v_part v = p"
proof (induction vs arbitrary: vs')
  case Nil
  then show ?case by simp
next
  case (Cons a vs)
  show ?case
  proof (cases "v_video_stem a = stem")
    case True
    with Cons.prems show ?thesis by (auto simp: image_iff)
  next
    case False
    with Cons.prems obtain ws where ws: "set_part vs stem p = Some ws" "vs' = a # ws"
      by auto
    with Cons.prems False have "v \<in> set ws" by auto
    from Cons.IH [OF ws(1) _ this] Cons.prems show ?thesis by simp
  qed
qed

lemma distinct_map_sort_key:
  "distinct (map f (sort_key g xs)) = distinct (map f xs)"
  by (simp add: distinct_map)

lemma filter_distinct_one:
  "distinct (map f xs) \<Longrightarrow> k \<in> f ` set xs \<Longrightarrow> length (filter (\<lambda>x. f x = k) xs) = 1"
proof (induction xs)
  case Nil
  then show ?case by simp
next
  case (Cons x xs)
  show ?case
  proof (cases "f x = k")
    case True
    with Cons.prems have "\<forall>y \<in> set xs. f y \<noteq> k" by (auto simp: image_iff)
    then have "filter (\<lambda>x. f x = k) xs = []" by (simp add: filter_empty_conv)
    with True show ?thesis by simp
  next
    case False
    with Cons show ?thesis by auto
  qed
qed

lemma updated_videos_ok:
  assumes "distinct (map v_video_stem vs)"
  shows "sorted (map v_part (updated_videos vs stem p))"
    and "distinct (map v_video_stem (updated_videos vs stem p))"
    and "length (filter (\<lambda>v. v_video_stem v = stem) (updated_videos vs stem p)) = 1"
    and "\<forall>v \<in> set (updated_videos vs stem p). v_video_stem v = stem \<longrightarrow> v_part v = p"
    and "v_video_stem ` set (updated_videos vs stem p) = insert stem (v_video_stem ` set vs)"
proof -
  let ?ws = "case set_part vs stem p of Some ws \<Rightarrow> ws | None \<Rightarrow> vs @ [\<lparr>v_video_stem = stem, v_part = p\<rparr>]"
  show "sorted (map v_part (updated_videos vs stem p))"
    by (simp add: updated_videos_def)
  have d: "distinct (map v_video_stem ?ws)"
    using assms by (auto simp: set_part_None set_part_stems split: option.splits)
  then show d': "distinct (map v_video_stem (updated_videos vs stem p))"
    by (simp add: updated_videos_def distinct_map_sort_key)
  have stems: "v_video_stem ` set ?ws = insert stem (v_video_stem ` set vs)"
  proof (cases "set_part vs stem p")
    case None
    then show ?thesis by simp
  next
    case (Some ws)
    from set_part_stems [OF Some] have "set (map v_video_stem ws) = set (map v_video_stem vs)"
      by simp
    moreover from Some have "stem \<in> v_video_stem ` set vs"
      using set_part_None [of vs stem p] by auto
    ultimately show ?thesis using Some by auto
  qed
  then show stems': "v_video_stem ` set (updated_videos vs stem p) = insert stem (v_video_stem ` set vs)"
    by (simp add: updated_videos_def)
  from filter_distinct_one [OF d'] stems'
  show "length (filter (\<lambda>v. v_video_stem v = stem) (updated_videos vs stem p)) = 1"
    by simp
  have "\<forall>v \<in> set ?ws. v_video_stem v = stem \<longrightarrow> v_part v = p"
  proof (cases "set_part vs stem p")
    case None
    then have "stem \<notin> v_video_stem ` set vs" by (simp add: set_part_None)
    then have "\<forall>v \<in> set vs. v_video_stem v \<noteq> stem" by (auto simp: image_iff)
    with None show ?thesis by auto
  next
    case (Some ws)
    with set_part_parts [OF Some assms] show ?thesis by auto
  qed
  then show "\<forall>v \<in> set (updated_videos vs stem p). v_video_stem v = stem \<longrightarrow> v_part v = p"
    by (simp add: updated_videos_def)
qed

subsection \<open>Writing and reading the file\<close>

lemma load_save_matches:
  "distinct (map fst m) \<Longrightarrow> load_matches (save_matches s m) = Some m"
  by (simp add: load_matches_def save_matches_def read_write_matches)

lemma distinct_py_dict: "distinct (map fst (py_dict ps))"
proof -
  have "distinct (map fst d) \<Longrightarrow>
      distinct (map fst (foldl (\<lambda>d (k, v). AList.update k v d) d ps))" for d
  proof (induction ps arbitrary: d)
    case Nil
    then show ?case by simp
  next
    case (Cons p ps)
    obtain k v where "p = (k, v)" by (cases p)
    with Cons.IH [of "AList.update k v d"] Cons.prems show ?case
      by (simp add: distinct_update)
  qed
  from this [of "[]"] show ?thesis by (simp add: py_dict_def)
qed

lemma scan_value_dict:
  "scan_value f t = Some (JObj d, r) \<Longrightarrow> distinct (map fst d)"
proof (cases f)
  case 0
  then show "scan_value f t = Some (JObj d, r) \<Longrightarrow> ?thesis" by simp
next
  case (Suc f')
  assume "scan_value f t = Some (JObj d, r)"
  with Suc show ?thesis
    by (auto simp: distinct_py_dict split: list.splits if_splits)
qed

lemma those_keys:
  "those (map (\<lambda>(k, j). map_option (Pair k) (f j)) d) = Some m \<Longrightarrow> map fst m = map fst d"
proof (induction d arbitrary: m)
  case Nil
  then show ?case by simp
next
  case (Cons p d)
  obtain k j where p: "p = (k, j)" by (cases p)
  with Cons.prems obtain g m' where
    "f j = Some g" "those (map (\<lambda>(k, j). map_option (Pair k) (f j)) d) = Some m'" "m = (k, g) # m'"
    by (auto split: option.splits)
  with Cons.IH [of m'] p show ?case by simp
qed

lemma read_matches_distinct: "read_matches t = Some m \<Longrightarrow> distinct (map fst m)"
proof -
  assume a: "read_matches t = Some m"
  then obtain j where j: "loads t = Some j" "json_matches j = Some m"
    by (auto simp: read_matches_def split: option.splits)
  from j(2) obtain d where d: "j = JObj d"
    "those (map (\<lambda>(match_name, g). map_option (Pair match_name) (json_group g)) d) = Some m"
    by (auto simp: json_matches_def split: json.splits)
  from j(1) d(1) obtain r where "scan_value (length t) (skip_ws t) = Some (JObj d, r)"
    by (auto simp: loads_def split: option.splits if_splits)
  then have "distinct (map fst d)" by (rule scan_value_dict)
  with those_keys [OF d(2)] show ?thesis by simp
qed

lemma load_matches_distinct: "load_matches s = Some m \<Longrightarrow> distinct (map fst m)"
  by (auto simp: load_matches_def read_matches_distinct split: option.splits)

lemma save_match_group_loaded:
  assumes "load_matches s = Some m"
  shows "save_match_group s n stem p r b =
           Some (save_matches s (AList.update n (updated_group m n stem p r b) m))"
    and "load_matches (save_matches s (AList.update n (updated_group m n stem p r b) m)) =
           Some (AList.update n (updated_group m n stem p r b) m)"
proof -
  show "save_match_group s n stem p r b =
           Some (save_matches s (AList.update n (updated_group m n stem p r b) m))"
    using assms by (simp add: save_match_group_def)
  from load_matches_distinct [OF assms]
  have "distinct (map fst (AList.update n (updated_group m n stem p r b) m))"
    by (rule distinct_update)
  then show "load_matches (save_matches s (AList.update n (updated_group m n stem p r b) m)) =
           Some (AList.update n (updated_group m n stem p r b) m)"
    by (rule load_save_matches)
qed

lemma loaded_after_Nil: "loaded_after s [] = load_matches s"
  by (simp add: loaded_after_def)

lemma loaded_after_Cons:
  "load_matches s = Some m \<Longrightarrow>
   loaded_after s ((n, stem, p, r, b) # calls) =
     loaded_after (save_matches s (AList.update n (updated_group m n stem p r b) m)) calls"
  by (simp add: loaded_after_def save_match_group_loaded(1))

subsection \<open>One call, and runs of calls\<close>

lemma updated_group_fields:
  "g_videos (updated_group m n stem p r b) =
     updated_videos (case map_of m n of None \<Rightarrow> [] | Some g \<Rightarrow> g_videos g) stem p"
  "g_red_name (updated_group m n stem p r b) =
     (if r \<noteq> [] then r else case map_of m n of None \<Rightarrow> r | Some g \<Rightarrow> g_red_name g)"
  "g_blue_name (updated_group m n stem p r b) =
     (if b \<noteq> [] then b else case map_of m n of None \<Rightarrow> b | Some g \<Rightarrow> g_blue_name g)"
  by (simp_all add: updated_group_def Let_def split: option.splits)

lemma updated_group_videos_distinct:
  assumes "\<forall>(n, g) \<in> set m. group_ok g"
  shows "distinct (map v_video_stem (case map_of m n of None \<Rightarrow> [] | Some g \<Rightarrow> g_videos g))"
proof (cases "map_of m n")
  case None
  then show ?thesis by simp
next
  case (Some g)
  with assms map_of_SomeD [OF Some] show ?thesis by (auto simp: group_ok_def)
qed

lemma group_ok_update:
  assumes "\<forall>(n, g) \<in> set m. group_ok g"
  shows "\<forall>(n', g) \<in> set (AList.update n (updated_group m n stem p r b) m). group_ok g"
proof -
  from updated_videos_ok(1,2) [OF updated_group_videos_distinct [OF assms], of n stem p]
  have "group_ok (updated_group m n stem p r b)"
    by (simp add: group_ok_def updated_group_fields)
  with assms show ?thesis
    by (auto dest!: set_update_subset)
qed

lemma save_match_groups_ok:
  assumes "load_matches s = Some m" and "\<forall>(n, g) \<in> set m. group_ok g"
  shows "\<exists>s' m'. save_match_groups s calls = Some s' \<and> load_matches s' = Some m' \<and>
           (\<forall>(n, g) \<in> set m'. group_ok g)"
  using assms
proof (induction calls arbitrary: s m)
  case Nil
  then show ?case by simp
next
  case (Cons c calls)
  obtain n stem p r b where c: "c = (n, stem, p, r, b)" by (cases c) auto
  let ?m = "AList.update n (updated_group m n stem p r b) m"
  let ?s = "save_matches s ?m"
  from save_match_group_loaded [OF Cons.prems(1), of n stem p r b]
  have step: "save_match_group s n stem p r b = Some ?s" "load_matches ?s = Some ?m"
    by simp_all
  from Cons.IH [OF step(2) group_ok_update [OF Cons.prems(2)]] step(1) c
  show ?case by simp
qed

lemma save_match_groups_append:
  "save_match_groups s (xs @ ys) =
     (case save_match_groups s xs of None \<Rightarrow> None | Some s' \<Rightarrow> save_match_groups s' ys)"
proof (induction xs arbitrary: s)
  case Nil
  then show ?case by simp
next
  case (Cons c xs)
  obtain n stem p r b where c: "c = (n, stem, p, r, b)" by (cases c) auto
  with Cons show ?case by (simp split: option.splits)
qed

lemma update_keeps_others:
  "(k', v') \<in> set al \<Longrightarrow> k' \<noteq> k \<Longrightarrow> (k', v') \<in> set (AList.update k v al)"
  by (induction al) auto

lemma update_has_new: "(k, v) \<in> set (AList.update k v al)"
  by (induction al) auto

subsection \<open>The example runs\<close>

lemma ex_no_matches: "no_matches empty_store"
  by (simp add: no_matches_def load_matches_def empty_store_def)

lemma ex_loaded_step:
  "distinct (map fst m) \<Longrightarrow>
   loaded_after (save_matches s m) ((n, stem, p, r, b) # calls) =
     loaded_after (save_matches (save_matches s m)
        (AList.update n (updated_group m n stem p r b) m)) calls"
  by (rule loaded_after_Cons) (rule load_save_matches)

lemma ex_loaded_last:
  "distinct (map fst m) \<Longrightarrow> loaded_after (save_matches s m) [] = Some m"
  by (simp add: loaded_after_Nil load_save_matches)

lemma ex_move_eval: "loaded_after empty_store ex_calls_move = Some ex_two_groups"
proof -
  have "load_matches empty_store = Some []"
    using ex_no_matches by (simp add: no_matches_def)
  from loaded_after_Cons [OF this]
  show ?thesis
    by (simp add: ex_calls_move_def ex_two_groups_def ex_loaded_step ex_loaded_last
        updated_group_def updated_videos_def Let_def)
qed

lemma ex_parts_eval: "loaded_after empty_store ex_calls_parts = Some ex_final_parts"
proof -
  have "load_matches empty_store = Some []"
    using ex_no_matches by (simp add: no_matches_def)
  from loaded_after_Cons [OF this]
  show ?thesis
    by (simp add: ex_calls_parts_def ex_final_parts_def ex_loaded_step ex_loaded_last
        updated_group_def updated_videos_def Let_def)
qed

subsection \<open>Order and duplicates within a group\<close>

text \<open>
  C4. Any run of \<^verbatim>\<open>save_match_group\<close> calls from a state without match groups goes
  through, and in the collection then loaded the video list of every group is sorted
  ascending by part and lists no video stem twice.
\<close>

theorem match_groups_sorted_distinct:
  assumes "no_matches s"
  shows "\<exists>m. loaded_after s calls = Some m \<and>
           (\<forall>(match_name, g) \<in> set m.
              sorted (map v_part (g_videos g)) \<and> distinct (map v_video_stem (g_videos g)))"
proof -
  from assms have "load_matches s = Some []" by (simp add: no_matches_def)
  from save_match_groups_ok [OF this, of calls] show ?thesis
    by (auto simp: loaded_after_def group_ok_def)
qed

theorem match_groups_sorted_distinct_witness:
  "no_matches empty_store \<and>
   loaded_after empty_store ex_calls_parts = Some ex_final_parts \<and>
   sorted (map v_part (g_videos (snd (hd ex_final_parts)))) \<and>
   distinct (map v_video_stem (g_videos (snd (hd ex_final_parts))))"
  using match_groups_sorted_distinct [OF ex_no_matches, of ex_calls_parts]
  by (simp add: ex_no_matches ex_parts_eval) (simp add: ex_final_parts_def)

subsection \<open>Fighter names\<close>

text \<open>
  C8. \<^verbatim>\<open>save_match_group\<close> on a readable file: in the collection loaded afterwards, an
  existing group has as its red name the argument when that is non-empty and the stored
  name otherwise, and likewise its blue name; the entry of every other match name is what
  it was.
\<close>

theorem save_match_group_names:
  assumes "load_matches s = Some m"
  shows "\<exists>m'. loaded_after s [(n, stem, p, r, b)] = Some m' \<and>
           (\<forall>g. map_of m n = Some g \<longrightarrow>
              (\<exists>g'. map_of m' n = Some g' \<and>
                 g_red_name g' = (if r = [] then g_red_name g else r) \<and>
                 g_blue_name g' = (if b = [] then g_blue_name g else b))) \<and>
           (\<forall>n'. n' \<noteq> n \<longrightarrow> map_of m' n' = map_of m n')"
  using save_match_group_loaded [OF assms, of n stem p r b]
  by (simp add: loaded_after_def update_conv' updated_group_fields)

theorem save_match_group_names_witness:
  "loaded_after empty_store ex_calls_move = Some ex_two_groups \<and>
   map_of ex_two_groups ''Final'' =
     Some \<lparr>g_red_name = ''Dunya'', g_blue_name = ''Opponent'',
           g_videos = [\<lparr>v_video_stem = ''match01'', v_part = 1\<rparr>]\<rparr> \<and>
   ''Semi Final'' \<noteq> ''Final'' \<and>
   (\<exists>m' g'. loaded_after (save_matches empty_store ex_two_groups)
               [(''Final'', ''match02'', 2, [], ''Lee'')] = Some m' \<and>
            map_of m' ''Final'' = Some g' \<and>
            g_red_name g' = ''Dunya'' \<and> g_blue_name g' = ''Lee'' \<and>
            map_of m' ''Semi Final'' = map_of ex_two_groups ''Semi Final'')"
proof -
  have l: "load_matches (save_matches empty_store ex_two_groups) = Some ex_two_groups"
    by (rule load_save_matches) (simp add: ex_two_groups_def)
  have f: "map_of ex_two_groups ''Final'' =
     Some \<lparr>g_red_name = ''Dunya'', g_blue_name = ''Opponent'',
           g_videos = [\<lparr>v_video_stem = ''match01'', v_part = 1\<rparr>]\<rparr>"
    by (simp add: ex_two_groups_def)
  from save_match_group_names [OF l, of "''Final''" "''match02''" 2 "[]" "''Lee''"] f
  show ?thesis
    by (auto simp add: ex_move_eval)
qed

subsection \<open>A video in several groups\<close>

text \<open>
  The lookup goes through the groups in the order of the file and answers with the first
  one that lists the video.
\<close>

lemma find_listed:
  "(find (\<lambda>vinfo. v_video_stem vinfo = stem) vs = None) = (stem \<notin> v_video_stem ` set vs)"
  by (auto simp: find_None_iff image_iff)

lemma match_for_video_in_first:
  "match_for_video_in m stem =
     (case filter (\<lambda>(match_name, mdata). stem \<in> v_video_stem ` set (g_videos mdata)) m of
        [] \<Rightarrow> None
      | (match_name, mdata) # rest \<Rightarrow>
          (case find (\<lambda>vinfo. v_video_stem vinfo = stem) (g_videos mdata) of
             None \<Rightarrow> None
           | Some vinfo \<Rightarrow>
               Some \<lparr>mi_match_name = match_name, mi_video_part = v_part vinfo,
                     mi_red_name = g_red_name mdata, mi_blue_name = g_blue_name mdata,
                     mi_videos = g_videos mdata\<rparr>))"
proof (induction m)
  case Nil
  show ?case by simp
next
  case (Cons e m)
  obtain k g where e: "e = (k, g)" by (cases e)
  show ?case
  proof (cases "stem \<in> v_video_stem ` set (g_videos g)")
    case True
    then have "find (\<lambda>vinfo. v_video_stem vinfo = stem) (g_videos g) \<noteq> None"
      by (simp add: find_listed)
    with True show ?thesis by (auto simp: e)
  next
    case False
    then have "find (\<lambda>vinfo. v_video_stem vinfo = stem) (g_videos g) = None"
      by (simp add: find_listed)
    with False Cons show ?thesis by (simp add: e)
  qed
qed

lemma match_for_video_in_name:
  assumes "groups_listing m stem \<noteq> []"
  shows "\<exists>info. match_for_video_in m stem = Some info \<and>
           mi_match_name info = hd (groups_listing m stem)"
proof -
  let ?f = "filter (\<lambda>(match_name, mdata). stem \<in> v_video_stem ` set (g_videos mdata)) m"
  from assms obtain k g rest where f: "?f = (k, g) # rest"
    by (cases ?f) (auto simp: groups_listing_def)
  then have "(k, g) \<in> set ?f" by simp
  then have "stem \<in> v_video_stem ` set (g_videos g)" by auto
  then obtain vinfo where "find (\<lambda>vinfo. v_video_stem vinfo = stem) (g_videos g) = Some vinfo"
    using find_listed [of stem "g_videos g"] by (cases "find (\<lambda>vinfo. v_video_stem vinfo = stem) (g_videos g)") auto
  with f show ?thesis
    by (simp add: match_for_video_in_first groups_listing_def)
qed

lemma groups_listing_append:
  "groups_listing (m @ m') stem = groups_listing m stem @ groups_listing m' stem"
  by (simp add: groups_listing_def)

lemma update_fresh_key: "map_of m n = None \<Longrightarrow> AList.update n g m = m @ [(n, g)]"
  by (rule update_fresh) (simp add: map_of_eq_None_iff)

text \<open>
  C3, as stated, fails: saving a video under a second match name lists it in both groups,
  and \<^verbatim>\<open>get_match_for_video\<close> keeps answering with the first.
\<close>

theorem video_in_two_groups:
  "no_matches empty_store \<and>
   loaded_after empty_store ex_calls_move = Some ex_two_groups \<and>
   groups_listing ex_two_groups ''match01'' = [''Semi Final'', ''Final''] \<and>
   \<not> length (groups_listing ex_two_groups ''match01'') \<le> 1 \<and>
   map_option mi_match_name (match_for_video_in ex_two_groups ''match01'') = Some ''Semi Final'' \<and>
   lookup_after empty_store ex_calls_move ''match01'' =
     Some (Some \<lparr>mi_match_name = ''Semi Final'', mi_video_part = 1, mi_red_name = ''Dunya'',
                  mi_blue_name = ''Opponent'',
                  mi_videos = [\<lparr>v_video_stem = ''match01'', v_part = 1\<rparr>]\<rparr>)"
proof -
  have l: "lookup_after empty_store ex_calls_move ''match01'' =
      map_option (\<lambda>m. match_for_video_in m ''match01'') (loaded_after empty_store ex_calls_move)"
    by (simp add: lookup_after_def loaded_after_def get_match_for_video_def
        split: option.splits)
  show ?thesis
    by (simp add: l ex_no_matches ex_move_eval) (simp add: ex_two_groups_def groups_listing_def)
qed

text \<open>
  C3, amended. After a run of \<^verbatim>\<open>save_match_group\<close> calls from a state without match
  groups, a further call leaves the video listed exactly once, with the given part, in
  the group it names, and leaves the entry of every other match name as it was; the
  groups that listed the video before still list it. The video is added to the named
  group, not moved there. After the call \<^verbatim>\<open>get_match_for_video\<close> finds the video, and
  answers with the first group, in the order of the file, that lists it; when the match
  name is new and the video was listed before, that is the first group that listed it
  before the call, and not the named one.
\<close>

theorem save_match_group_named_group_only:
  assumes "no_matches s0"
  shows "\<exists>m m'. loaded_after s0 calls = Some m \<and>
           loaded_after s0 (calls @ [(n, stem, p, r, b)]) = Some m' \<and>
           (\<exists>g. map_of m' n = Some g \<and>
              length (filter (\<lambda>v. v_video_stem v = stem) (g_videos g)) = 1 \<and>
              (\<forall>v \<in> set (g_videos g). v_video_stem v = stem \<longrightarrow> v_part v = p)) \<and>
           (\<forall>n'. n' \<noteq> n \<longrightarrow> map_of m' n' = map_of m n') \<and>
           set (groups_listing m stem) \<subseteq> set (groups_listing m' stem) \<and>
           groups_listing m' stem \<noteq> [] \<and>
           (\<exists>info. lookup_after s0 (calls @ [(n, stem, p, r, b)]) stem = Some (Some info) \<and>
              mi_match_name info = hd (groups_listing m' stem) \<and>
              (map_of m n = None \<and> groups_listing m stem \<noteq> [] \<longrightarrow>
                 mi_match_name info = hd (groups_listing m stem) \<and> mi_match_name info \<noteq> n))"
proof -
  from assms have "load_matches s0 = Some []" by (simp add: no_matches_def)
  from save_match_groups_ok [OF this, of calls]
  obtain s m where s: "save_match_groups s0 calls = Some s" "load_matches s = Some m"
    and ok: "\<forall>(n, g) \<in> set m. group_ok g"
    by auto
  let ?g' = "updated_group m n stem p r b"
  let ?m' = "AList.update n ?g' m"
  let ?s' = "save_matches s ?m'"
  from save_match_group_loaded [OF s(2), of n stem p r b] s(1)
  have run: "save_match_groups s0 (calls @ [(n, stem, p, r, b)]) = Some ?s'"
    and loaded: "load_matches ?s' = Some ?m'"
    by (simp_all add: save_match_groups_append)
  then have after: "loaded_after s0 (calls @ [(n, stem, p, r, b)]) = Some ?m'"
    by (simp add: loaded_after_def)
  from s have before: "loaded_after s0 calls = Some m"
    by (simp add: loaded_after_def)
  note d = updated_group_videos_distinct [OF ok, of n]
  have one: "length (filter (\<lambda>v. v_video_stem v = stem) (g_videos ?g')) = 1"
    using updated_videos_ok(3) [OF d, of stem p] by (simp add: updated_group_fields)
  have part: "\<forall>v \<in> set (g_videos ?g'). v_video_stem v = stem \<longrightarrow> v_part v = p"
    using updated_videos_ok(4) [OF d, of stem p] by (simp add: updated_group_fields)
  have lists: "stem \<in> v_video_stem ` set (g_videos ?g')"
    using updated_videos_ok(5) [OF d, of stem p] by (simp add: updated_group_fields)
  have sub: "set (groups_listing m stem) \<subseteq> set (groups_listing ?m' stem)"
  proof
    fix k
    assume "k \<in> set (groups_listing m stem)"
    then obtain g where g: "(k, g) \<in> set m" "stem \<in> v_video_stem ` set (g_videos g)"
      by (auto simp: groups_listing_def)
    show "k \<in> set (groups_listing ?m' stem)"
    proof (cases "k = n")
      case True
      have "(n, ?g') \<in> set ?m'" by (rule update_has_new)
      with lists True show ?thesis
        by (force simp: groups_listing_def)
    next
      case False
      from update_keeps_others [OF g(1) False, of ?g'] g(2) show ?thesis
        by (force simp: groups_listing_def)
    qed
  qed
  have "(n, ?g') \<in> set ?m'" by (rule update_has_new)
  with lists have "n \<in> set (groups_listing ?m' stem)"
    by (force simp: groups_listing_def)
  then have ne: "groups_listing ?m' stem \<noteq> []" by auto
  from match_for_video_in_name [OF ne]
  obtain info where info: "match_for_video_in ?m' stem = Some info"
    "mi_match_name info = hd (groups_listing ?m' stem)"
    by blast
  from run loaded info(1)
  have look: "lookup_after s0 (calls @ [(n, stem, p, r, b)]) stem = Some (Some info)"
    by (simp add: lookup_after_def get_match_for_video_def)
  have fresh: "mi_match_name info = hd (groups_listing m stem) \<and> mi_match_name info \<noteq> n"
    if new: "map_of m n = None" and listed: "groups_listing m stem \<noteq> []"
  proof -
    from new have "?m' = m @ [(n, ?g')]" by (rule update_fresh_key)
    then have "groups_listing ?m' stem = groups_listing m stem @ groups_listing [(n, ?g')] stem"
      by (simp add: groups_listing_append)
    with listed info(2) have h: "mi_match_name info = hd (groups_listing m stem)" by simp
    from listed have "hd (groups_listing m stem) \<in> set (groups_listing m stem)" by simp
    then have "hd (groups_listing m stem) \<in> fst ` set m"
      by (auto simp: groups_listing_def)
    moreover from new have "n \<notin> fst ` set m" by (simp add: map_of_eq_None_iff)
    ultimately show ?thesis using h by auto
  qed
  have G: "\<exists>g. map_of ?m' n = Some g \<and>
              length (filter (\<lambda>v. v_video_stem v = stem) (g_videos g)) = 1 \<and>
              (\<forall>v \<in> set (g_videos g). v_video_stem v = stem \<longrightarrow> v_part v = p)"
    using one part by (simp add: update_conv')
  have O: "\<forall>n'. n' \<noteq> n \<longrightarrow> map_of ?m' n' = map_of m n'"
    by (simp add: update_conv')
  have L: "\<exists>info. lookup_after s0 (calls @ [(n, stem, p, r, b)]) stem = Some (Some info) \<and>
              mi_match_name info = hd (groups_listing ?m' stem) \<and>
              (map_of m n = None \<and> groups_listing m stem \<noteq> [] \<longrightarrow>
                 mi_match_name info = hd (groups_listing m stem) \<and> mi_match_name info \<noteq> n)"
  proof (intro exI [of _ info] conjI impI)
    show "lookup_after s0 (calls @ [(n, stem, p, r, b)]) stem = Some (Some info)" by (rule look)
    show "mi_match_name info = hd (groups_listing ?m' stem)" by (rule info(2))
  next
    assume a: "map_of m n = None \<and> groups_listing m stem \<noteq> []"
    then have "map_of m n = None" "groups_listing m stem \<noteq> []" by simp_all
    from fresh [OF this] show "mi_match_name info = hd (groups_listing m stem)" by (rule conjunct1)
  next
    assume a: "map_of m n = None \<and> groups_listing m stem \<noteq> []"
    then have "map_of m n = None" "groups_listing m stem \<noteq> []" by simp_all
    from fresh [OF this] show "mi_match_name info \<noteq> n" by (rule conjunct2)
  qed
  show ?thesis
  proof (rule exI [of _ m], rule exI [of _ ?m'], intro conjI)
    show "loaded_after s0 calls = Some m" by (rule before)
    show "loaded_after s0 (calls @ [(n, stem, p, r, b)]) = Some ?m'" by (rule after)
    show "\<exists>g. map_of ?m' n = Some g \<and>
              length (filter (\<lambda>v. v_video_stem v = stem) (g_videos g)) = 1 \<and>
              (\<forall>v \<in> set (g_videos g). v_video_stem v = stem \<longrightarrow> v_part v = p)"
      by (rule G)
    show "\<forall>n'. n' \<noteq> n \<longrightarrow> map_of ?m' n' = map_of m n'" by (rule O)
    show "set (groups_listing m stem) \<subseteq> set (groups_listing ?m' stem)" by (rule sub)
    show "groups_listing ?m' stem \<noteq> []" by (rule ne)
    show "\<exists>info. lookup_after s0 (calls @ [(n, stem, p, r, b)]) stem = Some (Some info) \<and>
              mi_match_name info = hd (groups_listing ?m' stem) \<and>
              (map_of m n = None \<and> groups_listing m stem \<noteq> [] \<longrightarrow>
                 mi_match_name info = hd (groups_listing m stem) \<and> mi_match_name info \<noteq> n)"
      by (rule L)
  qed
qed

theorem save_match_group_named_group_only_witness:
  "no_matches empty_store \<and>
   ''Semi Final'' \<noteq> ''Final'' \<and>
   (\<exists>m m' g info.
      loaded_after empty_store [(''Semi Final'', ''match01'', 1, ''Dunya'', ''Opponent'')] = Some m \<and>
      loaded_after empty_store ex_calls_move = Some m' \<and>
      map_of m' ''Final'' = Some g \<and>
      length (filter (\<lambda>v. v_video_stem v = ''match01'') (g_videos g)) = 1 \<and>
      map_of m' ''Semi Final'' = map_of m ''Semi Final'' \<and>
      map_of m ''Final'' = None \<and>
      groups_listing m ''match01'' = [''Semi Final''] \<and>
      lookup_after empty_store ex_calls_move ''match01'' = Some (Some info) \<and>
      mi_match_name info = ''Semi Final'')"
proof -
  have one: "loaded_after empty_store [(''Semi Final'', ''match01'', 1, ''Dunya'', ''Opponent'')] =
      Some [(''Semi Final'', \<lparr>g_red_name = ''Dunya'', g_blue_name = ''Opponent'',
         g_videos = [\<lparr>v_video_stem = ''match01'', v_part = 1\<rparr>]\<rparr>)]"
  proof -
    have "load_matches empty_store = Some []"
      using ex_no_matches by (simp add: no_matches_def)
    from loaded_after_Cons [OF this] show ?thesis
      by (simp add: ex_loaded_last updated_group_def updated_videos_def Let_def)
  qed
  from save_match_group_named_group_only
    [OF ex_no_matches,
     of "[(''Semi Final'', ''match01'', 1, ''Dunya'', ''Opponent'')]" "''Final''" "''match01''" 1
        "''Dunya''" "''Opponent''"]
  show ?thesis
    by (auto simp add: ex_no_matches ex_calls_move_def one groups_listing_def)
qed

subsection \<open>Round trip\<close>

text \<open>
  C9. For every collection of match groups (a dictionary: no match name twice), the text
  \<^verbatim>\<open>save_matches\<close> writes is read back by \<^verbatim>\<open>load_matches\<close> as that collection, whatever
  the file held before.
\<close>

theorem save_load_matches_round_trip:
  assumes "distinct (map fst m)"
  shows "read_matches (write_matches m) = Some m \<and> load_matches (save_matches s m) = Some m"
  using read_write_matches [OF assms]
  by (simp add: load_matches_def save_matches_def)

theorem save_load_matches_round_trip_witness:
  "distinct (map fst ex_two_groups) \<and>
   read_matches (write_matches ex_two_groups) = Some ex_two_groups \<and>
   load_matches (save_matches empty_store ex_two_groups) = Some ex_two_groups"
proof -
  have d: "distinct (map fst ex_two_groups)" by (simp add: ex_two_groups_def)
  from d save_load_matches_round_trip [OF d, of empty_store] show ?thesis by simp
qed

end
